theory Spec2Isabelle
  imports Complex_Main "HOL-Library.Word"
begin

unbundle bit_operations_syntax

chapter \<open>The WebSDR device communication layer\<close>

text \<open>
  A shallow embedding of the packet codecs, the ring buffer, the device registry, the
  per-session command and transmit pipelines, the worker-backed manager and the debounced
  parameter setter of the websdr front-end core, followed by the properties checked
  against them.

  JavaScript numbers that hold sample counts, byte offsets and sizes are modelled as
  \<^typ>\<open>int\<close>: every arithmetic step on them is exact below \<open>2 ^ 53\<close>, far above any
  transfer size. \<open>bigint\<close> values are \<^typ>\<open>int\<close> as well.
\<close>

section \<open>JavaScript integer operators\<close>

text \<open>\<open>ToInt32\<close>: the operand conversion of \<open>&\<close>, \<open>|\<close>, \<open><<\<close> and \<open>>>\<close>.\<close>

definition to_int32 :: "int \<Rightarrow> int" where
  "to_int32 x = (x + 2 ^ 31) mod 2 ^ 32 - 2 ^ 31"

text \<open>\<open>a & b\<close> on numbers with integral values.\<close>

definition js_and :: "int \<Rightarrow> int \<Rightarrow> int" where
  "js_and a b = to_int32 a AND to_int32 b"

text \<open>\<open>a % b\<close> on integral numbers: the sign follows the dividend. For a zero divisor
  JavaScript yields \<open>NaN\<close>, which has no counterpart here: the statements below use the
  operator with a non-zero divisor only.\<close>

definition js_rem :: "int \<Rightarrow> int \<Rightarrow> int" where
  "js_rem a b = sgn a * (\<bar>a\<bar> mod \<bar>b\<bar>)"

text \<open>\<open>Math.floor(a / b)\<close> and \<open>Math.ceil(a / b)\<close> for an integral \<open>a\<close> and a positive
  integral \<open>b\<close>.\<close>

definition js_floor_div :: "int \<Rightarrow> int \<Rightarrow> int" where
  "js_floor_div a b = a div b"

definition js_ceil_div :: "int \<Rightarrow> int \<Rightarrow> int" where
  "js_ceil_div a b = - ((- a) div b)"

section \<open>Stream constants (core/common/defines.ts)\<close>

definition CHUNK_SIZE :: int where "CHUNK_SIZE = 8192"
definition FLOAT_SIZE :: int where "FLOAT_SIZE = 4"
definition COMPLEX_FLOAT_SIZE :: int where "COMPLEX_FLOAT_SIZE = 2 * FLOAT_SIZE"
definition INT16_SIZE :: int where "INT16_SIZE = 2"
definition COMPLEX_INT16_SIZE :: int where "COMPLEX_INT16_SIZE = 2 * INT16_SIZE"

section \<open>Packet sizes of the two codec variants\<close>

subsection \<open>Variant A: WebUsbWsdr\<close>

definition Wsdr_MAX_PACKET_SIZE :: int where "Wsdr_MAX_PACKET_SIZE = 0x000fffff"
definition Wsdr_PACKET_ALIGN :: int where "Wsdr_PACKET_ALIGN = 512"
definition Wsdr_PACKET_ALIGN_MASK :: int where
  "Wsdr_PACKET_ALIGN_MASK = Wsdr_PACKET_ALIGN - 1"
definition Wsdr_MAX_PACKET_MASK :: int where
  "Wsdr_MAX_PACKET_MASK = Wsdr_MAX_PACKET_SIZE - Wsdr_PACKET_ALIGN_MASK"
definition Wsdr_HEADER_SIZE :: int where "Wsdr_HEADER_SIZE = 16"
definition Wsdr_TRAILER_SIZE :: int where "Wsdr_TRAILER_SIZE = 8"
definition Wsdr_TRAILER_EXTRA_SIZE :: int where "Wsdr_TRAILER_EXTRA_SIZE = 8"
definition Wsdr_EXTRA_RX_DATA :: int where "Wsdr_EXTRA_RX_DATA = 512 + 2048"
definition Wsdr_MIN_SAMPLES_IN_PKT :: int where "Wsdr_MIN_SAMPLES_IN_PKT = 128"
definition Wsdr_MAX_SAMPLES_IN_PKT :: int where "Wsdr_MAX_SAMPLES_IN_PKT = 8192"

definition Wsdr_getRXSamplesCount :: "int \<Rightarrow> int" where
  "Wsdr_getRXSamplesCount samples = samples"

definition Wsdr_getRXPacketSize :: "int \<Rightarrow> int" where
  "Wsdr_getRXPacketSize samples =
     js_and (samples * COMPLEX_INT16_SIZE + Wsdr_PACKET_ALIGN_MASK) Wsdr_MAX_PACKET_MASK
       + Wsdr_EXTRA_RX_DATA"

definition Wsdr_getTXPacketSize :: "int \<Rightarrow> int" where
  "Wsdr_getTXPacketSize samples = samples * COMPLEX_INT16_SIZE + Wsdr_HEADER_SIZE"

subsection \<open>Variant B: WebUsbLimeSdr\<close>

definition Lime_PACKET_SIZE :: int where "Lime_PACKET_SIZE = 4096"
definition Lime_HEADER_SIZE :: int where "Lime_HEADER_SIZE = 16"
definition Lime_SAMPLES_PER_PACKET :: int where
  "Lime_SAMPLES_PER_PACKET = (Lime_PACKET_SIZE - Lime_HEADER_SIZE) div COMPLEX_INT16_SIZE"
definition Lime_SAMPLES_MULTIPLY :: int where "Lime_SAMPLES_MULTIPLY = 4"

definition Lime_getRXSamplesCount :: "int \<Rightarrow> int" where
  "Lime_getRXSamplesCount samples =
     js_floor_div samples Lime_SAMPLES_PER_PACKET * Lime_SAMPLES_PER_PACKET"

definition Lime_getRXPacketSize :: "int \<Rightarrow> int" where
  "Lime_getRXPacketSize samples =
     js_ceil_div samples Lime_SAMPLES_PER_PACKET * Lime_PACKET_SIZE"

definition Lime_getTXPacketSize :: "int \<Rightarrow> int" where
  "Lime_getTXPacketSize samples =
     (let lastPktFill = js_rem samples Lime_SAMPLES_PER_PACKET
      in js_floor_div samples Lime_SAMPLES_PER_PACKET * Lime_PACKET_SIZE
           + (if lastPktFill > 0 then Lime_HEADER_SIZE + lastPktFill * COMPLEX_INT16_SIZE
              else 0))"

section \<open>Sample conversion (core/transform/converters.ts)\<close>

text \<open>
  An \<open>Int16Array\<close> is a list of 16-bit words, read as signed by \<^const>\<open>sint\<close>. A
  \<open>Float32Array\<close> is a list of the real numbers its finite elements denote (NaN and the
  infinities are not represented). Both conversions are exact on these: \<open>x / 0x8000\<close> is a
  float for every 16-bit \<open>x\<close>, and the product of a float (24-bit significand) with
  \<open>0x7fff\<close> fits the 53-bit significand of the double it is computed in.
\<close>

text \<open>The integer part of a number, rounding towards zero, as \<open>ToInt16\<close> takes it.\<close>

definition js_trunc :: "real \<Rightarrow> int" where
  "js_trunc v = (if 0 \<le> v then \<lfloor>v\<rfloor> else \<lceil>v\<rceil>)"

text \<open>Storing a number into an \<open>Int16Array\<close> element: truncate, then keep the low 16 bits.\<close>

definition to_int16 :: "real \<Rightarrow> 16 word" where
  "to_int16 v = word_of_int (js_trunc v)"

definition bufferI16ToF32 :: "16 word list \<Rightarrow> real list option \<Rightarrow> real list" where
  "bufferI16ToF32 input outbuf =
     (let output = (case outbuf of Some ob \<Rightarrow> ob | None \<Rightarrow> replicate (length input) 0);
          len = min (length input) (length output)
      in fold (\<lambda>i out. out[i := real_of_int (sint (input ! i)) / 0x8000]) [0..<len] output)"

definition bufferF32ToI16 :: "real list \<Rightarrow> 16 word list option \<Rightarrow> 16 word list" where
  "bufferF32ToI16 input outbuf =
     (let output = (case outbuf of Some ob \<Rightarrow> ob | None \<Rightarrow> replicate (length input) 0);
          len = min (length input) (length output)
      in fold (\<lambda>i out. out[i := to_int16 (input ! i * 0x7fff)]) [0..<len] output)"

section \<open>Byte buffers and views\<close>

text \<open>
  An \<open>ArrayBuffer\<close> is the list of its bytes. The constructors of typed-array views and of
  \<open>DataView\<close> throw a \<open>RangeError\<close> on a negative or misaligned offset and on a region that
  does not fit the buffer; the predicates below are their acceptance conditions.
\<close>

type_synonym bytes = "8 word list"

datatype exn =
    HeaderSizeError      \<comment> \<open>\<open>Error\<close>: buffer slice must be at least 16 bytes\<close>
  | SamplesRangeError    \<comment> \<open>\<open>Error\<close>: count of samples must be in range [128, 8192]\<close>
  | SamplesAlignError    \<comment> \<open>\<open>Error\<close>: count of samples must be a multiple of 4\<close>
  | PacketSizeError      \<comment> \<open>\<open>Error\<close>: unexpected usb packet size\<close>
  | RangeError           \<comment> \<open>thrown by a view constructor or a \<open>DataView\<close> accessor\<close>
  | IndexError           \<comment> \<open>\<open>Error\<close>: ring buffer index out of range\<close>

text \<open>\<open>new T(buf, offset)\<close> for a typed array \<open>T\<close> with elements of \<open>e\<close> bytes, no length
  given.\<close>

definition typed_array_view_ok :: "int \<Rightarrow> int \<Rightarrow> int \<Rightarrow> bool" where
  "typed_array_view_ok e bufLen offset \<longleftrightarrow>
     0 \<le> offset \<and> offset mod e = 0 \<and> bufLen mod e = 0 \<and> 0 \<le> bufLen - offset"

text \<open>\<open>new T(buf, offset, n)\<close> for a typed array \<open>T\<close> with elements of \<open>e\<close> bytes.\<close>

definition typed_array_ok :: "int \<Rightarrow> int \<Rightarrow> int \<Rightarrow> int \<Rightarrow> bool" where
  "typed_array_ok e bufLen offset n \<longleftrightarrow>
     0 \<le> offset \<and> offset mod e = 0 \<and> 0 \<le> n \<and> offset + n * e \<le> bufLen"

text \<open>\<open>new DataView(buf, offset, len)\<close>.\<close>

definition data_view_ok :: "int \<Rightarrow> int \<Rightarrow> int \<Rightarrow> bool" where
  "data_view_ok bufLen offset len \<longleftrightarrow>
     0 \<le> offset \<and> offset \<le> bufLen \<and> 0 \<le> len \<and> offset + len \<le> bufLen"

text \<open>The \<open>n\<close> little-endian bytes of the low \<open>8 * n\<close> bits of an integer.\<close>

definition le_bytes :: "nat \<Rightarrow> int \<Rightarrow> bytes" where
  "le_bytes n v = map (\<lambda>k. word_of_int (v div 2 ^ (8 * k))) [0..<n]"

text \<open>The unsigned integer that a list of little-endian bytes denotes.\<close>

definition le_value :: "bytes \<Rightarrow> int" where
  "le_value bs = foldr (\<lambda>b acc. uint b + 256 * acc) bs 0"

definition write_bytes :: "bytes \<Rightarrow> nat \<Rightarrow> bytes \<Rightarrow> bytes" where
  "write_bytes buf off bs = take off buf @ bs @ drop (off + length bs) buf"

section \<open>Header writers of the two codec variants\<close>

text \<open>
  \<open>_fillHeader\<close> mutates the buffer it is given or throws. The model returns the
  exception, if any, together with the buffer as the call leaves it.
\<close>

definition Wsdr_fillHeader :: "bytes \<Rightarrow> int \<Rightarrow> bool \<Rightarrow> int \<Rightarrow> int \<Rightarrow> exn option \<times> bytes" where
  "Wsdr_fillHeader buf offset discard_timestamp timestamp samples =
     (let discard_timestamp_flag = (if discard_timestamp then 1 else 0 :: int);
          bufLen = int (length buf)
      in if bufLen - offset < Wsdr_HEADER_SIZE then (Some HeaderSizeError, buf)
         else if samples < Wsdr_MIN_SAMPLES_IN_PKT \<or> samples > Wsdr_MAX_SAMPLES_IN_PKT
           then (Some SamplesRangeError, buf)
         else if \<not> typed_array_view_ok 2 bufLen offset then (Some RangeError, buf)
         else if \<not> typed_array_view_ok 8 bufLen offset then (Some RangeError, buf)
         else
           let b1 = write_bytes buf (nat offset) (le_bytes 8 (timestamp AND 0x0000ffffffffffff));
               b2 = write_bytes b1 (nat offset + 8) (le_bytes 8 0);
               b3 = write_bytes b2 (nat offset + 6)
                      (le_bytes 2 (discard_timestamp_flag * 2 ^ 15 + js_and (samples - 1) 0x7fff))
           in (None, b3))"

definition Lime_fillHeader :: "bytes \<Rightarrow> int \<Rightarrow> bool \<Rightarrow> int \<Rightarrow> int \<Rightarrow> exn option \<times> bytes" where
  "Lime_fillHeader buf offset discard_timestamp timestamp samples =
     (let discard_timestamp_flag = (if discard_timestamp then 1 else 0 :: int);
          bufLen = int (length buf)
      in if bufLen - offset < Lime_HEADER_SIZE then (Some HeaderSizeError, buf)
         else if js_rem samples 4 \<noteq> 0 then (Some SamplesAlignError, buf)
         else if \<not> data_view_ok bufLen offset Lime_HEADER_SIZE then (Some RangeError, buf)
         else
           let b1 = write_bytes buf (nat offset) (le_bytes 1 (discard_timestamp_flag * 2 ^ 4));
               b2 = write_bytes b1 (nat offset + 1) (le_bytes 2 (samples * COMPLEX_INT16_SIZE));
               b3 = write_bytes b2 (nat offset + 3) (le_bytes 1 0);
               b4 = write_bytes b3 (nat offset + 4) (le_bytes 4 0);
               b5 = write_bytes b4 (nat offset + 8) (le_bytes 8 timestamp)
           in (None, b5))"

section \<open>Device registry (webUsb.ts, WebUsbDeviceManager)\<close>

datatype codec = WebUsbUsdr | WebUsbXsdr | WebUsbLimeSdr

text \<open>The fields of a session that the registry reads or sets.\<close>

record session =
  fd :: int
  vid :: int
  pid :: int
  variant :: codec

definition SDRDevicesIds :: "(int \<times> int) list" where
  "SDRDevicesIds =
     [(0xfaee, 0xdea9), (0xfaef, 0xdea9), (0x3727, 0x1001), (0x3727, 0x1011), (0x0403, 0x601f)]"

text \<open>\<open>(((vendorId & 0xffff) << 16) | (productId & 0xffff)) >>> 0\<close>, and 0 for no id.\<close>

definition getDeviceHash :: "(int \<times> int) option \<Rightarrow> int" where
  "getDeviceHash devId =
     (case devId of None \<Rightarrow> 0
      | Some (vendorId, productId) \<Rightarrow>
          (let v = js_and vendorId 0xffff; p = js_and productId 0xffff
           in v * 2 ^ 16 + p))"

definition webUsbMap :: "(int \<times> codec) list" where
  "webUsbMap =
     [(getDeviceHash (Some (SDRDevicesIds ! 0)), WebUsbUsdr),
      (getDeviceHash (Some (SDRDevicesIds ! 1)), WebUsbXsdr),
      (getDeviceHash (Some (SDRDevicesIds ! 2)), WebUsbUsdr),
      (getDeviceHash (Some (SDRDevicesIds ! 3)), WebUsbXsdr),
      (getDeviceHash (Some (SDRDevicesIds ! 4)), WebUsbLimeSdr)]"

text \<open>\<open>getWebUsbInstance(key, {fd, module, vid, pid})\<close>: the constructor stores the
  parameters.\<close>

definition getWebUsbInstance :: "int \<Rightarrow> int \<Rightarrow> int \<Rightarrow> int \<Rightarrow> session option" where
  "getWebUsbInstance key fd0 vid0 pid0 =
     (case map_of webUsbMap key of None \<Rightarrow> None
      | Some c \<Rightarrow> Some \<lparr>fd = fd0, vid = vid0, pid = pid0, variant = c\<rparr>)"

text \<open>
  The registry: whether the control module is defined, and the table of open sessions, a
  JavaScript array whose slots hold a session or \<open>undefined\<close>.
\<close>

record manager =
  module_defined :: bool
  webUsbDevices :: "session option list"

text \<open>\<open>arr[i] = v\<close>: an index at or past the length extends the array with holes.\<close>

definition set_slot :: "'a option list \<Rightarrow> nat \<Rightarrow> 'a option \<Rightarrow> 'a option list" where
  "set_slot xs i v =
     (if i < length xs then xs[i := v] else xs @ replicate (i - length xs) None @ [v])"

text \<open>The first loop of \<open>open\<close>: the first stored session with the given ids.\<close>

fun find_opened :: "session option list \<Rightarrow> int \<Rightarrow> int \<Rightarrow> session option" where
  "find_opened [] v p = None"
| "find_opened (d # ds) v p =
     (case d of
        Some dev \<Rightarrow> if vid dev = v \<and> pid dev = p then Some dev else find_opened ds v p
      | None \<Rightarrow> find_opened ds v p)"

text \<open>The second loop of \<open>open\<close>, started at index \<open>i\<close>: the first slot holding
  \<open>undefined\<close>, or \<open>-1\<close>.\<close>

fun find_free :: "nat \<Rightarrow> 'a option list \<Rightarrow> int" where
  "find_free i [] = - 1"
| "find_free i (d # ds) = (if d = None then int i else find_free (Suc i) ds)"

text \<open>The handle \<open>open\<close> passes to the new session: the free slot, or 0 when none is.\<close>

definition choose_fd :: "'a option list \<Rightarrow> int" where
  "choose_fd ds = (let fd0 = find_free 0 ds in if fd0 < 0 then 0 else fd0)"

text \<open>
  The session's own \<open>open\<close>, as far as the registry sees it: when the USB open, reset,
  configuration or claim throws, the session sets its \<open>fd\<close> to \<open>-1\<close>. Whether that
  happens is the parameter \<open>usb_ok\<close>.
\<close>

definition session_open :: "bool \<Rightarrow> session \<Rightarrow> session" where
  "session_open usb_ok dev = (if usb_ok then dev else dev\<lparr>fd := - 1\<rparr>)"

definition DeviceManager_open :: "int \<Rightarrow> int \<Rightarrow> bool \<Rightarrow> manager \<Rightarrow> session option \<times> manager" where
  "DeviceManager_open v p usb_ok m =
     (if \<not> module_defined m then (None, m)
      else case find_opened (webUsbDevices m) v p of
        Some dev \<Rightarrow> (Some dev, m)
      | None \<Rightarrow>
          (let fd0 = choose_fd (webUsbDevices m)
           in case getWebUsbInstance (getDeviceHash (Some (v, p))) fd0 v p of
                None \<Rightarrow> (None, m\<lparr>webUsbDevices := set_slot (webUsbDevices m) (nat fd0) None\<rparr>)
              | Some dev \<Rightarrow>
                  (let dev' = session_open usb_ok dev
                   in (Some dev',
                       m\<lparr>webUsbDevices := set_slot (webUsbDevices m) (nat fd0) (Some dev')\<rparr>))))"

definition DeviceManager_close :: "int \<Rightarrow> manager \<Rightarrow> bool \<times> manager" where
  "DeviceManager_close fd0 m =
     (if fd0 < 0 \<or> fd0 \<ge> int (length (webUsbDevices m)) \<or> webUsbDevices m ! nat fd0 = None
      then (False, m)
      else (True, m\<lparr>webUsbDevices := (webUsbDevices m)[nat fd0 := None]\<rparr>))"


definition DeviceManager_init :: "bool \<Rightarrow> manager" where
  "DeviceManager_init md = \<lparr>module_defined = md, webUsbDevices = []\<rparr>"

text \<open>Every stored session carries the index of its slot as handle, or \<open>-1\<close> after a
  failed USB open.\<close>

definition table_ok :: "session option list \<Rightarrow> bool" where
  "table_ok ds \<longleftrightarrow> (\<forall>j < length ds. \<forall>d. ds ! j = Some d \<longrightarrow> fd d = int j \<or> fd d = - 1)"




section \<open>Receive decoders of the two codec variants\<close>

text \<open>
  Modelled from the spec: the enum \<open>DataType\<close> of core/common/types.ts is not among the
  sources. The element datatype tags are those the codecs name; every tag is a truthy
  value, so \<open>opts?.datatype || DataType.ci16\<close> falls back to \<open>ci16\<close> exactly when no tag is
  given.
\<close>

datatype DataType = ci16 | cf32 | f32

record RXDecoderOptions =
  extra_meta :: "bool option"
  datatype_opt :: "DataType option"
  data_opt :: "bytes option"
  id_opt :: "int option"

text \<open>
  The result of a decode. Of the output buffer only the byte length is kept: the sample
  payload that \<open>fillData\<close> copies or converts into it plays no part in what follows.
\<close>

record RXBuffer =
  data_byteLength :: int
  datatype_tag :: DataType
  ident :: int
  samples :: int
  timestamp :: int
  overrun :: int
  realigned :: int
  dropped :: int
  recvsize :: int

text \<open>A \<open>DataView\<close>: the underlying buffer and the window it shows.\<close>

record DataView =
  buffer :: bytes
  byteOffset :: nat
  byteLength :: nat

text \<open>\<open>(a / b) >> 0\<close> on integral numbers: the quotient truncated towards zero, as an
  \<open>int32\<close>.\<close>

definition js_trunc_div :: "int \<Rightarrow> int \<Rightarrow> int" where
  "js_trunc_div a b = to_int32 (sgn a * sgn b * (\<bar>a\<bar> div \<bar>b\<bar>))"

text \<open>\<open>data.getBigUint64(pos, true)\<close>.\<close>

definition getBigUint64 :: "DataView \<Rightarrow> int \<Rightarrow> exn + int" where
  "getBigUint64 dv pos =
     (if pos < 0 \<or> pos + 8 > int (byteLength dv) then Inl RangeError
      else Inr (le_value (take 8 (drop (byteOffset dv + nat pos) (buffer dv)))))"

text \<open>
  \<open>WebUsb.fillData\<close>, reduced to whether it throws: each branch builds one typed-array
  view of \<open>iqBufLength\<close> elements over the output buffer and one over the input buffer.
  The arguments are the byte lengths of the two buffers in place of the buffers.
\<close>

definition elem_size :: "DataType \<Rightarrow> int" where
  "elem_size t = (if t = ci16 then 2 else 4)"

definition fillData_ok :: "DataType \<Rightarrow> int \<Rightarrow> int \<Rightarrow> DataType \<Rightarrow> int \<Rightarrow> int \<Rightarrow> int \<Rightarrow> bool" where
  "fillData_ok outBufDataType outLen outBufOffset iqBufDataType iqLen iqBufOffset iqBufLength =
     (if (outBufDataType = cf32 \<and> outBufDataType = iqBufDataType)
         \<or> (outBufDataType = ci16 \<and> outBufDataType = iqBufDataType)
         \<or> (outBufDataType = ci16 \<and> iqBufDataType = cf32)
         \<or> (outBufDataType = cf32 \<and> iqBufDataType = ci16)
      then typed_array_ok (elem_size outBufDataType) outLen outBufOffset iqBufLength
           \<and> typed_array_ok (elem_size iqBufDataType) iqLen iqBufOffset iqBufLength
      else True)"

definition opts_id :: "RXDecoderOptions option \<Rightarrow> int" where
  "opts_id opts = (case opts of None \<Rightarrow> - 1
                   | Some opt \<Rightarrow> (case id_opt opt of None \<Rightarrow> - 1 | Some i \<Rightarrow> i))"

definition opts_datatype :: "RXDecoderOptions option \<Rightarrow> DataType" where
  "opts_datatype opts = (case opts of None \<Rightarrow> ci16
                         | Some opt \<Rightarrow> (case datatype_opt opt of None \<Rightarrow> ci16 | Some t \<Rightarrow> t))"

definition opts_data :: "RXDecoderOptions option \<Rightarrow> bytes option" where
  "opts_data opts = (case opts of None \<Rightarrow> None | Some opt \<Rightarrow> data_opt opt)"

definition elementSize_of :: "DataType \<Rightarrow> int" where
  "elementSize_of t = (if t = cf32 \<or> t = f32 then COMPLEX_FLOAT_SIZE else COMPLEX_INT16_SIZE)"

subsection \<open>Variant A\<close>

text \<open>
  \<open>WebUsbWsdr.decodeRxData\<close>. The last argument is the session's \<open>_timestamp\<close>; the result
  pairs the returned buffer, or the rejection or exception, with the new \<open>_timestamp\<close>.
\<close>

definition Wsdr_read_extra :: "DataView \<Rightarrow> bool \<Rightarrow> int \<Rightarrow> exn + int \<times> int" where
  "Wsdr_read_extra dv extraMeta dataSize =
     (if extraMeta
      then (case getBigUint64 dv (dataSize + Wsdr_TRAILER_SIZE) of
              Inl e \<Rightarrow> Inl e
            | Inr extra \<Rightarrow> Inr (drop_bit (64 - 20) extra, extra AND 0xffff))
      else Inr (0, 0))"

definition Wsdr_decodeRxData ::
  "DataView \<Rightarrow> int \<Rightarrow> RXDecoderOptions option \<Rightarrow> int \<Rightarrow> (exn + RXBuffer) \<times> int" where
  "Wsdr_decodeRxData dv samples0 opts ts0 =
     (let id0 = opts_id opts;
          extraMeta = (case opts of None \<Rightarrow> False | Some opt \<Rightarrow> extra_meta opt = Some True);
          trailerSize = Wsdr_TRAILER_SIZE + (if extraMeta then Wsdr_TRAILER_EXTRA_SIZE else 0);
          dataSize = int (byteLength dv) - trailerSize;
          samplesRecv = js_trunc_div dataSize COMPLEX_INT16_SIZE
      in if samples0 \<noteq> samplesRecv then (Inl PacketSizeError, ts0)
         else
           (case getBigUint64 dv dataSize of
              Inl e \<Rightarrow> (Inl e, ts0)
            | Inr ts \<Rightarrow>
                (case Wsdr_read_extra dv extraMeta dataSize of
                   Inl e \<Rightarrow> (Inl e, ts0)
                 | Inr (realigned0, dropped0) \<Rightarrow>
                     (let overrun0 = ts AND 0x0000000000ffffff;
                          datatype0 = opts_datatype opts;
                          elementSize = elementSize_of datatype0;
                          outLen = (case opts_data opts of
                                      Some ob \<Rightarrow> int (length ob)
                                    | None \<Rightarrow> samplesRecv * elementSize)
                      in if \<not> fillData_ok datatype0 outLen 0 ci16 (int (length (buffer dv))) 0
                                 (js_trunc_div dataSize INT16_SIZE)
                         then (Inl RangeError, ts0)
                         else
                           (let ts1 = ts0 + overrun0 * samplesRecv;
                                ret = \<lparr>data_byteLength = outLen, datatype_tag = datatype0,
                                       ident = id0, samples = samplesRecv, timestamp = ts1,
                                       overrun = overrun0, realigned = realigned0,
                                       dropped = dropped0, recvsize = int (byteLength dv)\<rparr>;
                                ts2 = ts1 + samplesRecv
                            in (Inr ret, ts2))))))"

subsection \<open>Variant B\<close>

text \<open>
  The loop of \<open>WebUsbLimeSdr.decodeRxData\<close> over the sub-packets \<open>i\<close>. Its state is
  \<open>(prevPacketTS, overrun, freeSamples)\<close>; an exception ends it. The overrun is summed
  from the exact differences of the timestamps; the code converts each difference with
  \<open>Number()\<close>, which is exact below \<open>2^53\<close> and rounds above.
\<close>

definition Lime_decode_step ::
  "DataView \<Rightarrow> DataType \<Rightarrow> int \<Rightarrow> int \<Rightarrow> nat \<Rightarrow> int \<times> int \<times> int \<Rightarrow> exn + int \<times> int \<times> int" where
  "Lime_decode_step dv datatype0 elementSize outLen i st =
     (case st of (prevPacketTS, overrun0, freeSamples) \<Rightarrow>
        (let outBufOffset = int i * Lime_SAMPLES_PER_PACKET * elementSize;
             packetOffset = int i * Lime_PACKET_SIZE
         in case getBigUint64 dv (packetOffset + 8) of
              Inl e \<Rightarrow> Inl e
            | Inr packetTS \<Rightarrow>
                (let samplesDelta = (packetTS - prevPacketTS) - Lime_SAMPLES_PER_PACKET;
                     overrun1 = (if samplesDelta > 0
                                 then overrun0 + js_trunc_div samplesDelta Lime_SAMPLES_PER_PACKET
                                 else overrun0);
                     samplesCur = min Lime_SAMPLES_PER_PACKET freeSamples
                 in if samplesCur > 0
                    then (if fillData_ok datatype0 outLen outBufOffset ci16
                               (int (length (buffer dv))) (packetOffset + Lime_HEADER_SIZE)
                               (samplesCur * 2)
                          then Inr (packetTS, overrun1, freeSamples - samplesCur)
                          else Inl RangeError)
                    else Inr (packetTS, overrun1, freeSamples))))"

fun Lime_decode_loop ::
  "DataView \<Rightarrow> DataType \<Rightarrow> int \<Rightarrow> int \<Rightarrow> nat list \<Rightarrow> int \<times> int \<times> int \<Rightarrow> exn + int \<times> int \<times> int" where
  "Lime_decode_loop dv datatype0 elementSize outLen [] st = Inr st"
| "Lime_decode_loop dv datatype0 elementSize outLen (i # js) st =
     (case Lime_decode_step dv datatype0 elementSize outLen i st of
        Inl e \<Rightarrow> Inl e
      | Inr st' \<Rightarrow> Lime_decode_loop dv datatype0 elementSize outLen js st')"

text \<open>
  \<open>WebUsbLimeSdr.decodeRxData\<close>. The last argument is the session's
  \<open>_lastRecvTimestamp\<close>, the only timestamp this variant keeps; the result pairs the
  returned buffer, or the exception, with its new value.
\<close>

definition Lime_decodeRxData ::
  "DataView \<Rightarrow> int \<Rightarrow> RXDecoderOptions option \<Rightarrow> int \<Rightarrow> (exn + RXBuffer) \<times> int" where
  "Lime_decodeRxData dv samples0 opts lastRecvTimestamp =
     (let id0 = opts_id opts;
          packetCnt = js_trunc_div (int (byteLength dv)) Lime_PACKET_SIZE;
          dataSize = int (byteLength dv) - Lime_HEADER_SIZE * packetCnt;
          samplesRecv = js_trunc_div dataSize COMPLEX_INT16_SIZE
      in if samplesRecv < samples0 then (Inl PacketSizeError, lastRecvTimestamp)
         else case getBigUint64 dv 8 of
           Inl e \<Rightarrow> (Inl e, lastRecvTimestamp)
         | Inr timestamp0 \<Rightarrow>
             (let datatype0 = opts_datatype opts;
                  elementSize = elementSize_of datatype0;
                  outLen = (case opts_data opts of
                              Some ob \<Rightarrow> int (length ob)
                            | None \<Rightarrow> samplesRecv * elementSize)
              in case Lime_decode_loop dv datatype0 elementSize outLen [0..<nat packetCnt]
                        (timestamp0, 0, samples0) of
                   Inl e \<Rightarrow> (Inl e, lastRecvTimestamp)
                 | Inr (prevPacketTS, overrun0, freeSamples) \<Rightarrow>
                     (Inr \<lparr>data_byteLength = outLen, datatype_tag = datatype0, ident = id0,
                           samples = samplesRecv, timestamp = timestamp0, overrun = overrun0,
                           realigned = 0, dropped = 0, recvsize = int (byteLength dv)\<rparr>,
                      timestamp0)))"

section \<open>Worker-backed manager (WebUsbWorkerManager)\<close>

datatype WebUsbRequestType =
    START | STOP | OPEN | CLOSE | CLOSE_ALL | GET_DEV_NAME | GET_SERIAL_NUMBER
  | GET_RX_SAMPLES_COUNT | SEND_COMMAND | SEND_DEBUG_COMMAND | SUBMIT_RX_PACKET
  | SEND_TX_PACKET | GET_STREAM_STATUS | SET_STREAM_STATUS | GET_CONFIGURATION
  | GET_OPENED_DEVICE_LIST

text \<open>
  The operations of the manager with their arguments. Request objects, packet buffers,
  decoder options and stream statuses are opaque payloads, numbered by \<^typ>\<open>nat\<close>.
\<close>

datatype facade_op =
    Op_open "int option" "int option"
  | Op_close int
  | Op_closeAll
  | Op_getName int
  | Op_getSerialNumber int
  | Op_getRXSamplesCount int int
  | Op_sendCommand int nat
  | Op_sendDebugCommand int nat
  | Op_submitRxPacket int int nat
  | Op_sendTxPacket int nat nat
  | Op_getStreamStatus int
  | Op_setStreamStatus int nat
  | Op_getConfiguration int
  | Op_getOpenedDeviceList


text \<open>A message posted to a worker: its type tag, its correlation id and, for an operation,
  the arguments it carries.\<close>

record message =
  msg_type :: WebUsbRequestType
  msg_id :: nat
  msg_fields :: "facade_op option"

text \<open>
  The manager: the worker object it holds (workers are numbered as they are created), the
  counter and the pending ids of its \<open>PromiseHelper\<close>, and, for observation, every message
  posted so far with the worker it went to and the workers terminated so far.
\<close>

record worker_manager =
  worker :: "nat option"
  workers_created :: nat
  promiseMapId :: nat
  promiseMap :: "nat list"
  posted :: "(nat \<times> message) list"
  terminated :: "nat list"

text \<open>
  What a call of an \<open>async\<close> operation yields when it first returns control: a promise
  rejected by a \<open>throw\<close>, a promise fulfilled with a value, the pending promise of a
  correlation id, or, for \<open>open\<close> without a worker, suspension on the handshake promise of
  the worker it has just started.
\<close>

datatype outcome =
    Throws string
  | Returns int
  | Pending nat
  | AwaitsStart nat

definition not_running :: string where
  "not_running = ''WebUsbManager: worker is not running''"

definition createPromise :: "worker_manager \<Rightarrow> nat \<times> worker_manager" where
  "createPromise m =
     (let i = promiseMapId m + 1
      in (i, m\<lparr>promiseMapId := i, promiseMap := promiseMap m @ [i]\<rparr>))"

definition postMessage :: "nat \<Rightarrow> message \<Rightarrow> worker_manager \<Rightarrow> worker_manager" where
  "postMessage w msg m = m\<lparr>posted := posted m @ [(w, msg)]\<rparr>"




text \<open>The common tail of every operation: allocate an id, post the request, return the
  pending promise.\<close>

definition request :: "WebUsbRequestType \<Rightarrow> facade_op \<Rightarrow> nat \<Rightarrow> worker_manager \<Rightarrow> outcome \<times> worker_manager" where
  "request t op w m =
     (let (i, m1) = createPromise m
      in (Pending i, postMessage w \<lparr>msg_type = t, msg_id = i, msg_fields = Some op\<rparr> m1))"

text \<open>Every operation other than \<open>open\<close> starts with
  \<open>if (!this.worker) throw new Error('WebUsbManager: worker is not running')\<close>.\<close>

definition guarded :: "WebUsbRequestType \<Rightarrow> facade_op \<Rightarrow> worker_manager \<Rightarrow> outcome \<times> worker_manager" where
  "guarded t op m =
     (case worker m of None \<Rightarrow> (Throws not_running, m) | Some w \<Rightarrow> request t op w m)"





section \<open>Debounced parameter setter (ControlWebUsb.setParameter)\<close>
















section \<open>Transmit pipeline of a session (WebUsb.sendTxRawPacket)\<close>

text \<open>
  All code of a session runs on one event loop, so a step of the model is one uninterrupted
  run of code: a call of \<open>sendTxRawPacket\<close> up to its first \<open>await\<close> or its return, the
  continuation of a suspended call, or the \<open>then\<close>/\<open>catch\<close> handler of a finished
  transfer. Submissions are numbered as they arrive. The state records the counter
  \<open>_sendDataReqCnt\<close>, the counters \<open>in\<close> and \<open>out\<close>, the one-shot waiter
  \<open>_onChangeSendDataReq\<close> (the submission whose \<open>resolve\<close> it holds), and where every
  submission is: suspended in \<open>waitForChangeSendDataReq\<close>, resolved with its continuation
  queued, with its transfer issued and not finished, or dropped.
\<close>

record tx_state =
  sendDataReqCnt :: int
  tx_in :: int
  tx_out :: int
  onChangeSendDataReq :: "nat option"
  waiting :: "nat list"
  ready :: "nat list"
  outstanding :: "nat list"
  dropped_tx :: "nat list"
  next_submission :: nat

definition MAX_SEND_DATA_REQUEST :: int where
  "MAX_SEND_DATA_REQUEST = 128"

definition tx_init :: tx_state where
  "tx_init = \<lparr>sendDataReqCnt = 0, tx_in = 0, tx_out = 0, onChangeSendDataReq = None,
              waiting = [], ready = [], outstanding = [], dropped_tx = [],
              next_submission = 0\<rparr>"

text \<open>The setter of \<open>sendDataReqCnt\<close>: it runs the waiter, if one is registered, and then
  stores the value. The waiter resolves its promise and unregisters itself.\<close>

definition set_sendDataReqCnt :: "int \<Rightarrow> tx_state \<Rightarrow> tx_state" where
  "set_sendDataReqCnt val s =
     (let s1 = (case onChangeSendDataReq s of
                  Some w \<Rightarrow> s\<lparr>ready := ready s @ [w], waiting := removeAll w (waiting s),
                              onChangeSendDataReq := None\<rparr>
                | None \<Rightarrow> s)
      in s1\<lparr>sendDataReqCnt := val\<rparr>)"

text \<open>\<open>waitForChangeSendDataReq\<close> called by submission \<open>w\<close>: it registers a new waiter,
  replacing any other.\<close>

definition waitForChangeSendDataReq :: "nat \<Rightarrow> tx_state \<Rightarrow> tx_state" where
  "waitForChangeSendDataReq w s =
     s\<lparr>onChangeSendDataReq := Some w, waiting := waiting s @ [w]\<rparr>"

text \<open>The end of \<open>sendTxRawPacket\<close>: \<open>++this.sendDataReqCnt; ++this.out\<close> and the call of
  \<open>_sendTxPacket\<close>, which issues the transfer.\<close>

definition issue_tx :: "nat \<Rightarrow> tx_state \<Rightarrow> tx_state" where
  "issue_tx w s =
     (let s1 = set_sendDataReqCnt (sendDataReqCnt s + 1) s
      in s1\<lparr>tx_out := tx_out s1 + 1, outstanding := outstanding s1 @ [w]\<rparr>)"

text \<open>The loop \<open>while (this.sendDataReqCnt >= MAX) await this.waitForChangeSendDataReq()\<close>
  entered or re-entered by submission \<open>w\<close>, followed by the end of the function.\<close>

definition wait_or_issue :: "nat \<Rightarrow> tx_state \<Rightarrow> tx_state" where
  "wait_or_issue w s =
     (if sendDataReqCnt s \<ge> MAX_SEND_DATA_REQUEST then waitForChangeSendDataReq w s
      else issue_tx w s)"

definition sendTxRawPacket :: "bool \<Rightarrow> tx_state \<Rightarrow> tx_state" where
  "sendTxRawPacket allowDrop s =
     (let w = next_submission s; s0 = s\<lparr>next_submission := w + 1\<rparr>
      in if sendDataReqCnt s0 \<ge> MAX_SEND_DATA_REQUEST
         then (if allowDrop then s0\<lparr>dropped_tx := dropped_tx s0 @ [w]\<rparr>
               else wait_or_issue w s0)
         else issue_tx w s0)"

text \<open>The continuation of submission \<open>w\<close> after its wait was resolved.\<close>

definition resume_tx :: "nat \<Rightarrow> tx_state \<Rightarrow> tx_state" where
  "resume_tx w s =
     (if w \<in> set (ready s) then wait_or_issue w (s\<lparr>ready := removeAll w (ready s)\<rparr>) else s)"

text \<open>
  The handlers of \<open>_sendTxPacket\<close> for the transfer of submission \<open>w\<close>: \<open>ok\<close> tells
  whether the transfer reported status \<open>ok\<close> with all bytes written, in which case the
  \<open>then\<close> handler decrements and resolves; otherwise the \<open>then\<close> handler throws, or the
  write itself was rejected, and the \<open>catch\<close> handler decrements and rejects.
\<close>

definition transfer_done :: "nat \<Rightarrow> bool \<Rightarrow> tx_state \<Rightarrow> tx_state" where
  "transfer_done w ok s =
     (if w \<in> set (outstanding s)
      then (let s0 = s\<lparr>outstanding := removeAll w (outstanding s)\<rparr>
            in if ok
               then (let s1 = set_sendDataReqCnt (sendDataReqCnt s0 - 1) s0
                     in s1\<lparr>tx_in := tx_in s1 + 1\<rparr>)
               else (let s1 = set_sendDataReqCnt (sendDataReqCnt s0 - 1) s0
                     in s1\<lparr>tx_in := tx_in s1 + 1\<rparr>))
      else s)"

datatype tx_event =
    Submit bool
  | Resume nat
  | TransferDone nat bool

fun tx_step :: "tx_event \<Rightarrow> tx_state \<Rightarrow> tx_state" where
  "tx_step (Submit allowDrop) s = sendTxRawPacket allowDrop s"
| "tx_step (Resume w) s = resume_tx w s"
| "tx_step (TransferDone w ok) s = transfer_done w ok s"

definition tx_run :: "tx_event list \<Rightarrow> tx_state \<Rightarrow> tx_state" where
  "tx_run es s = fold tx_step es s"

text \<open>The invariant: the counter is the number of transfers issued and not finished, it
  does not exceed the maximum, and no submission is in two places.\<close>

definition tx_inv :: "tx_state \<Rightarrow> bool" where
  "tx_inv s \<longleftrightarrow>
     sendDataReqCnt s = int (length (outstanding s))
     \<and> sendDataReqCnt s \<le> MAX_SEND_DATA_REQUEST
     \<and> distinct (waiting s @ ready s @ outstanding s)
     \<and> (\<forall>w \<in> set (waiting s @ ready s @ outstanding s). w < next_submission s)
     \<and> (\<forall>w. onChangeSendDataReq s = Some w \<longrightarrow> w \<in> set (waiting s))"

section \<open>Ring buffer (core/utils/circularbuffer.ts)\<close>

text \<open>
  The buffer array is the list of its slots, \<open>None\<close> for a slot never written. The
  \<open>onChangeSize\<close> hook, a no-op unless \<open>waitForChangeSize\<close> replaced it, is left out: no
  operation reads what it does. The index proxy of the constructor forwards to \<open>get\<close> and
  \<open>set\<close>.
\<close>

record 'a CircularBuffer =
  bufferLen :: int
  buffer_slots :: "'a option list"
  bufferHead :: int
  bufferTail :: int
  bufferFull :: bool

definition CircularBuffer_new :: "int \<Rightarrow> 'a CircularBuffer" where
  "CircularBuffer_new len =
     \<lparr>bufferLen = len, buffer_slots = replicate (nat len) None, bufferHead = 0,
      bufferTail = 0, bufferFull = False\<rparr>"

text \<open>\<open>this._buffer[i] = val\<close>: an index past the end extends the array, a negative one
  leaves its elements alone.\<close>

definition slot_write :: "'a option list \<Rightarrow> int \<Rightarrow> 'a \<Rightarrow> 'a option list" where
  "slot_write xs i v = (if i < 0 then xs else set_slot xs (nat i) (Some v))"

text \<open>\<open>this._buffer[i]\<close>: \<open>undefined\<close> outside the array.\<close>

definition slot_read :: "'a option list \<Rightarrow> int \<Rightarrow> 'a option" where
  "slot_read xs i = (if 0 \<le> i \<and> i < int (length xs) then xs ! nat i else None)"

definition cb_clear :: "'a CircularBuffer \<Rightarrow> 'a CircularBuffer" where
  "cb_clear c = c\<lparr>bufferHead := 0, bufferTail := 0, bufferFull := False\<rparr>"

definition cb_capacity :: "'a CircularBuffer \<Rightarrow> int" where
  "cb_capacity c = bufferLen c"

definition cb_size :: "'a CircularBuffer \<Rightarrow> int" where
  "cb_size c =
     (if bufferFull c then bufferLen c
      else if bufferHead c \<le> bufferTail c then bufferTail c - bufferHead c
      else bufferTail c + bufferLen c - bufferHead c)"

definition cb_isFull :: "'a CircularBuffer \<Rightarrow> bool" where
  "cb_isFull c = bufferFull c"

definition cb_isEmpty :: "'a CircularBuffer \<Rightarrow> bool" where
  "cb_isEmpty c \<longleftrightarrow> bufferHead c = bufferTail c \<and> \<not> bufferFull c"

definition cb_checkIndex :: "'a CircularBuffer \<Rightarrow> int \<Rightarrow> bool" where
  "cb_checkIndex c index =
     (if bufferFull c then 0 \<le> index \<and> index < bufferLen c
      else if bufferHead c \<le> bufferTail c then bufferHead c \<le> index \<and> index < bufferTail c
      else (0 \<le> index \<and> index < bufferTail c) \<or> (bufferHead c \<le> index \<and> index < bufferLen c))"

definition cb_pop_front :: "int \<Rightarrow> 'a CircularBuffer \<Rightarrow> 'a CircularBuffer" where
  "cb_pop_front cnt c =
     (if cnt < 1 then c
      else
        (let cntBiggerSize = (cnt \<ge> cb_size c);
             c1 = c\<lparr>bufferHead := js_rem (bufferHead c + cnt) (bufferLen c)\<rparr>;
             c2 = (if cntBiggerSize then c1\<lparr>bufferTail := bufferHead c1\<rparr> else c1)
         in c2\<lparr>bufferFull := False\<rparr>))"

definition cb_pop_back :: "int \<Rightarrow> 'a CircularBuffer \<Rightarrow> 'a CircularBuffer" where
  "cb_pop_back cnt0 c =
     (if cnt0 < 1 then c
      else
        (let cntBiggerSize = (cnt0 \<ge> cb_size c);
             cnt = js_rem cnt0 (bufferLen c);
             c1 = (if bufferTail c - cnt < 0
                   then c\<lparr>bufferTail := bufferLen c - (cnt - bufferTail c)\<rparr>
                   else c\<lparr>bufferTail := bufferTail c - cnt\<rparr>);
             c2 = (if cntBiggerSize then c1\<lparr>bufferHead := bufferTail c1\<rparr> else c1)
         in c2\<lparr>bufferFull := False\<rparr>))"

definition cb_push_front :: "'a \<Rightarrow> 'a CircularBuffer \<Rightarrow> 'a CircularBuffer" where
  "cb_push_front val c =
     (let c0 = (if bufferFull c then cb_pop_back 1 c else c);
          h = bufferHead c0 - 1;
          c1 = c0\<lparr>bufferHead := (if h < 0 then bufferLen c0 - 1 else h)\<rparr>;
          c2 = c1\<lparr>bufferFull := (bufferHead c1 = bufferTail c1)\<rparr>
      in c2\<lparr>buffer_slots := slot_write (buffer_slots c2) (bufferHead c2) val\<rparr>)"

definition cb_push_back :: "'a \<Rightarrow> 'a CircularBuffer \<Rightarrow> 'a CircularBuffer" where
  "cb_push_back val c =
     (let c0 = (if bufferFull c then cb_pop_front 1 c else c);
          c1 = c0\<lparr>buffer_slots := slot_write (buffer_slots c0) (bufferTail c0) val\<rparr>;
          c2 = c1\<lparr>bufferTail := js_rem (bufferTail c1 + 1) (bufferLen c1)\<rparr>
      in c2\<lparr>bufferFull := (bufferHead c2 = bufferTail c2)\<rparr>)"

definition cb_front :: "'a CircularBuffer \<Rightarrow> 'a option" where
  "cb_front c = slot_read (buffer_slots c) (bufferHead c)"

definition cb_back :: "'a CircularBuffer \<Rightarrow> 'a option" where
  "cb_back c =
     slot_read (buffer_slots c) (if bufferTail c > 0 then bufferTail c - 1 else bufferLen c - 1)"

text \<open>\<open>set\<close> and \<open>get\<close> throw on an index outside the stored range.\<close>

definition cb_set :: "int \<Rightarrow> 'a \<Rightarrow> 'a CircularBuffer \<Rightarrow> exn + 'a CircularBuffer" where
  "cb_set index val c =
     (let tabIndex = js_rem (bufferHead c + index) (bufferLen c)
      in if \<not> cb_checkIndex c tabIndex then Inl IndexError
         else Inr (c\<lparr>buffer_slots := slot_write (buffer_slots c) tabIndex val\<rparr>))"

definition cb_get :: "int \<Rightarrow> 'a CircularBuffer \<Rightarrow> exn + 'a option" where
  "cb_get index c =
     (let tabIndex = js_rem (bufferHead c + index) (bufferLen c)
      in if \<not> cb_checkIndex c tabIndex then Inl IndexError
         else Inr (slot_read (buffer_slots c) tabIndex))"

definition cb_alloc_front :: "int \<Rightarrow> 'a CircularBuffer \<Rightarrow> 'a CircularBuffer" where
  "cb_alloc_front cnt c =
     (if cnt < 1 then c
      else
        (let free = cb_capacity c - cb_size c;
             c1 = (if free < cnt
                   then (let c0 = cb_pop_back (cnt - free) c
                         in c0\<lparr>bufferHead := bufferTail c0\<rparr>)
                   else if bufferHead c - cnt < 0
                   then c\<lparr>bufferHead := bufferLen c - (cnt - bufferHead c)\<rparr>
                   else c\<lparr>bufferHead := bufferHead c - cnt\<rparr>)
         in c1\<lparr>bufferFull := (bufferHead c1 = bufferTail c1)\<rparr>))"

definition cb_alloc_back :: "int \<Rightarrow> 'a CircularBuffer \<Rightarrow> 'a CircularBuffer" where
  "cb_alloc_back cnt c =
     (if cnt < 1 then c
      else
        (let free = cb_capacity c - cb_size c;
             c1 = (if free < cnt
                   then (let c0 = cb_pop_front (cnt - free) c
                         in c0\<lparr>bufferTail := bufferHead c0\<rparr>)
                   else c\<lparr>bufferTail := js_rem (bufferTail c + cnt) (bufferLen c)\<rparr>)
         in c1\<lparr>bufferFull := (bufferHead c1 = bufferTail c1)\<rparr>))"

text \<open>The operations that change a buffer, for statements about all of them. A \<open>set\<close>
  that throws changes nothing.\<close>

datatype 'a cb_op =
    Clear
  | Push_front 'a
  | Push_back 'a
  | Set_at int 'a
  | Pop_front int
  | Pop_back int
  | Alloc_front int
  | Alloc_back int

fun cb_apply :: "'a cb_op \<Rightarrow> 'a CircularBuffer \<Rightarrow> 'a CircularBuffer" where
  "cb_apply Clear c = cb_clear c"
| "cb_apply (Push_front v) c = cb_push_front v c"
| "cb_apply (Push_back v) c = cb_push_back v c"
| "cb_apply (Set_at i v) c = (case cb_set i v c of Inl e \<Rightarrow> c | Inr c' \<Rightarrow> c')"
| "cb_apply (Pop_front n) c = cb_pop_front n c"
| "cb_apply (Pop_back n) c = cb_pop_back n c"
| "cb_apply (Alloc_front n) c = cb_alloc_front n c"
| "cb_apply (Alloc_back n) c = cb_alloc_back n c"

text \<open>A well-formed buffer: a positive capacity, the array of that length, both indices
  inside it, and the full flag only with the indices equal.\<close>

definition cb_ok :: "'a CircularBuffer \<Rightarrow> bool" where
  "cb_ok c \<longleftrightarrow>
     1 \<le> bufferLen c \<and> int (length (buffer_slots c)) = bufferLen c
     \<and> 0 \<le> bufferHead c \<and> bufferHead c < bufferLen c
     \<and> 0 \<le> bufferTail c \<and> bufferTail c < bufferLen c
     \<and> (bufferFull c \<longrightarrow> bufferHead c = bufferTail c)"

text \<open>The stored elements from front to back.\<close>

definition cb_contents :: "'a CircularBuffer \<Rightarrow> 'a option list" where
  "cb_contents c =
     map (\<lambda>i. slot_read (buffer_slots c) ((bufferHead c + int i) mod bufferLen c))
       [0..<nat (cb_size c)]"

section \<open>Command channel of a session (WebUsb.sendCommand, runCommandPool, _sendCommand)\<close>

text \<open>
  A command request is its payload and the identity of the request object, which stands
  for the \<open>resolve\<close>/\<open>reject\<close> pair of the promise \<open>sendCommand\<close> returned.
\<close>

record CommandRequest =
  req :: nat
  cid :: nat

text \<open>What the native round trip delivers: a non-zero return code, or return code 0 with a
  reply that parses to an object without an \<open>error\<close> field, to one with it, or does not
  parse.\<close>

datatype native_result =
    Res_nonzero int
  | Reply_object nat
  | Reply_with_error int
  | Reply_malformed

text \<open>How \<open>_sendCommand\<close> ends: it returns an object without or with an \<open>error\<close> field, or
  throws.\<close>

datatype sc_result =
    Ret_object nat
  | Ret_error int
  | Thrown

text \<open>
  An invocation of \<open>runCommandPool\<close> that got past its guard is suspended at
  \<open>await this._sendCommand(com_req.req)\<close> in one of two ways: \<open>_sendCommand\<close> is itself
  suspended in the native call, or \<open>_sendCommand\<close> is over and the continuation of
  \<open>runCommandPool\<close> is queued. In both it holds \<open>com_req\<close> in a local variable.
\<close>

datatype pool_pc =
    AwaitNative CommandRequest
  | AwaitReturn CommandRequest sc_result

text \<open>
  The session's command state: the queue \<open>_commands\<close>, the flag, whether module and device
  are defined, the suspended invocations of \<open>runCommandPool\<close> (numbered as they start),
  and for observation the native calls begun so far (invocation and request identity) and
  the continuations settled so far. \<open>diverged\<close> is raised if the pool loop were to run
  out of the fuel it is given.
\<close>

record cmd_state =
  commands :: "CommandRequest CircularBuffer"
  sendCommandInProcess :: bool
  device_present :: bool
  pools :: "(nat \<times> pool_pc) list"
  next_pool :: nat
  next_cid :: nat
  native_log :: "(nat \<times> nat) list"
  settled :: "(nat \<times> sc_result) list"
  diverged :: bool

definition cmd_init :: cmd_state where
  "cmd_init =
     \<lparr>commands = CircularBuffer_new 100, sendCommandInProcess = False, device_present = True,
      pools = [], next_pool = 0, next_cid = 0, native_log = [], settled = [],
      diverged = False\<rparr>"

definition set_pool :: "nat \<Rightarrow> pool_pc \<Rightarrow> cmd_state \<Rightarrow> cmd_state" where
  "set_pool p pc s = s\<lparr>pools := filter (\<lambda>(q, x). q \<noteq> p) (pools s) @ [(p, pc)]\<rparr>"

definition end_pool :: "nat \<Rightarrow> cmd_state \<Rightarrow> cmd_state" where
  "end_pool p s = s\<lparr>pools := filter (\<lambda>(q, x). q \<noteq> p) (pools s)\<rparr>"

text \<open>\<open>_sendCommand\<close> called by invocation \<open>p\<close>, up to the native call or the early
  return.\<close>

definition sendCommand_enter :: "nat \<Rightarrow> CommandRequest \<Rightarrow> cmd_state \<Rightarrow> cmd_state" where
  "sendCommand_enter p com_req s =
     (let s1 = s\<lparr>sendCommandInProcess := True\<rparr>
      in if \<not> device_present s1 then set_pool p (AwaitReturn com_req (Ret_error (- 1))) s1
         else set_pool p (AwaitNative com_req)
                (s1\<lparr>native_log := native_log s1 @ [(p, cid com_req)]\<rparr>))"

text \<open>
  The loop of \<open>runCommandPool\<close> from its head, run by invocation \<open>p\<close> until it suspends or
  ends. Only an undefined front element makes it go round without suspending, each time
  after a \<open>pop_front\<close>; the first argument bounds these rounds.
\<close>

fun pool_loop :: "nat \<Rightarrow> nat \<Rightarrow> cmd_state \<Rightarrow> cmd_state" where
  "pool_loop 0 p s = s\<lparr>diverged := True\<rparr>"
| "pool_loop (Suc n) p s =
     (if cb_isEmpty (commands s) then end_pool p (s\<lparr>sendCommandInProcess := False\<rparr>)
      else case cb_front (commands s) of
        Some com_req \<Rightarrow> sendCommand_enter p com_req s
      | None \<Rightarrow> pool_loop n p (s\<lparr>commands := cb_pop_front 1 (commands s)\<rparr>))"

definition pool_fuel :: "cmd_state \<Rightarrow> nat" where
  "pool_fuel s = nat (cb_size (commands s)) + 1"

definition runCommandPool :: "cmd_state \<Rightarrow> cmd_state" where
  "runCommandPool s =
     (if sendCommandInProcess s then s
      else (let p = next_pool s;
                s1 = s\<lparr>sendCommandInProcess := True, next_pool := p + 1\<rparr>
            in pool_loop (pool_fuel s1) p s1))"

definition sendCommand :: "nat \<Rightarrow> cmd_state \<Rightarrow> cmd_state" where
  "sendCommand r s =
     (let com_req = \<lparr>req = r, cid = next_cid s\<rparr>;
          s1 = s\<lparr>commands := cb_push_back com_req (commands s), next_cid := next_cid s + 1\<rparr>
      in runCommandPool s1)"

definition sc_result_of :: "native_result \<Rightarrow> sc_result" where
  "sc_result_of res =
     (case res of
        Res_nonzero r \<Rightarrow> Ret_error r
      | Reply_object j \<Rightarrow> Ret_object j
      | Reply_with_error e \<Rightarrow> Ret_error e
      | Reply_malformed \<Rightarrow> Thrown)"

text \<open>
  The native call of invocation \<open>p\<close> delivers: \<open>_sendCommand\<close> runs to its end. Unless
  parsing the reply throws, it clears the flag before it returns.
\<close>

definition native_reply :: "nat \<Rightarrow> native_result \<Rightarrow> cmd_state \<Rightarrow> cmd_state" where
  "native_reply p res s =
     (case map_of (pools s) p of
        Some (AwaitNative com_req) \<Rightarrow>
          (if res = Reply_malformed then set_pool p (AwaitReturn com_req Thrown) s
           else set_pool p (AwaitReturn com_req (sc_result_of res))
                  (s\<lparr>sendCommandInProcess := False\<rparr>))
      | _ \<Rightarrow> s)"

text \<open>
  The continuation of invocation \<open>p\<close>: it settles the request it holds, calls
  \<open>this._commands.pop_front()\<close> and goes back to the head of the loop.
\<close>

definition pool_resume :: "nat \<Rightarrow> cmd_state \<Rightarrow> cmd_state" where
  "pool_resume p s =
     (case map_of (pools s) p of
        Some (AwaitReturn com_req r) \<Rightarrow>
          (let s1 = s\<lparr>settled := settled s @ [(cid com_req, r)]\<rparr>;
               s2 = s1\<lparr>commands := cb_pop_front 1 (commands s1)\<rparr>
           in pool_loop (pool_fuel s2) p s2)
      | _ \<Rightarrow> s)"

datatype cmd_event =
    SendCommand nat
  | NativeReply nat native_result
  | PoolResume nat

fun cmd_step :: "cmd_event \<Rightarrow> cmd_state \<Rightarrow> cmd_state" where
  "cmd_step (SendCommand r) s = sendCommand r s"
| "cmd_step (NativeReply p res) s = native_reply p res s"
| "cmd_step (PoolResume p) s = pool_resume p s"

definition cmd_run :: "cmd_event list \<Rightarrow> cmd_state \<Rightarrow> cmd_state" where
  "cmd_run es s = fold cmd_step es s"

text \<open>The native round trips in progress, each with the invocation that awaits it and the
  identity of its request.\<close>

definition in_flight :: "cmd_state \<Rightarrow> (nat \<times> nat) list" where
  "in_flight s =
     concat (map (\<lambda>(p, pc). case pc of AwaitNative c \<Rightarrow> [(p, cid c)] | AwaitReturn c r \<Rightarrow> [])
       (pools s))"

text \<open>The identities of the requests in the queue, front first, and of those held by
  suspended invocations.\<close>

definition queued :: "cmd_state \<Rightarrow> nat list" where
  "queued s =
     concat (map (\<lambda>x. case x of Some c \<Rightarrow> [cid c] | None \<Rightarrow> []) (cb_contents (commands s)))"

definition held :: "cmd_state \<Rightarrow> nat list" where
  "held s = map (\<lambda>(p, pc). case pc of AwaitNative c \<Rightarrow> cid c | AwaitReturn c r \<Rightarrow> cid c) (pools s)"

text \<open>A request identity that is neither in the queue nor held by an invocation other than
  \<open>p\<close>.\<close>

definition absent_but :: "nat \<Rightarrow> nat \<Rightarrow> cmd_state \<Rightarrow> bool" where
  "absent_but p x s \<longleftrightarrow> x \<notin> set (queued s) \<and> x \<notin> set (held (end_pool p s))"

definition absent :: "nat \<Rightarrow> cmd_state \<Rightarrow> bool" where
  "absent x s \<longleftrightarrow> x \<notin> set (queued s) \<and> x \<notin> set (held s)"

definition is_settled :: "nat \<Rightarrow> cmd_state \<Rightarrow> bool" where
  "is_settled x s \<longleftrightarrow> x \<in> fst ` set (settled s)"

definition is_sent :: "nat \<Rightarrow> cmd_state \<Rightarrow> bool" where
  "is_sent x s \<longleftrightarrow> x \<in> snd ` set (native_log s)"

text \<open>The queue overflows while the first round trip is in progress: 101 calls of
  \<open>sendCommand\<close>, then the first reply and the continuation of \<open>runCommandPool\<close>.\<close>

definition overflow_trace :: "cmd_event list" where
  "overflow_trace =
     map SendCommand [0..<101] @ [NativeReply 0 (Reply_object 0), PoolResume 0]"

chapter \<open>Properties\<close>

section \<open>Operator lemmas\<close>

lemma to_int32_id: "- (2 ^ 31) \<le> x \<Longrightarrow> x < 2 ^ 31 \<Longrightarrow> to_int32 x = x"
  by (simp add: to_int32_def)

lemma js_rem_nonneg: "0 \<le> a \<Longrightarrow> 0 < b \<Longrightarrow> js_rem a b = a mod b"
  by (cases "a = 0") (simp_all add: js_rem_def)

lemma align_mask_numeral: "(0xFFE00::int) = push_bit 9 (mask 11)"
  by (simp add: mask_eq_exp_minus_1 push_bit_eq_mult)

lemma and_align_mask_bits:
  "(x::int) AND 0xFFE00 = push_bit 9 (take_bit 11 (drop_bit 9 x))"
  unfolding align_mask_numeral by (rule bit_eqI) (auto simp add: bit_simps)

lemma and_align_mask_small:
  "0 \<le> x \<Longrightarrow> x < 2 ^ 20 \<Longrightarrow> (x::int) AND 0xFFE00 = x div 512 * 512"
  unfolding and_align_mask_bits
  by (simp add: push_bit_eq_mult drop_bit_eq_div take_bit_eq_mod)

section \<open>Packet sizes\<close>

lemma Wsdr_getRXPacketSize_small:
  assumes "0 \<le> s" "s \<le> 262016"
  shows "Wsdr_getRXPacketSize s = (4 * s + 511) div 512 * 512 + 2560"
proof -
  have b: "0 \<le> 4 * s + 511" "4 * s + 511 < 2 ^ 20" using assms by simp_all
  have "to_int32 (4 * s + 511) = 4 * s + 511"
    using b by (intro to_int32_id) simp_all
  moreover have "to_int32 0xFFE00 = 0xFFE00" by (simp add: to_int32_def)
  ultimately show ?thesis
    using and_align_mask_small [OF b]
    by (simp add: Wsdr_getRXPacketSize_def js_and_def COMPLEX_INT16_SIZE_def INT16_SIZE_def
        Wsdr_PACKET_ALIGN_MASK_def Wsdr_PACKET_ALIGN_def Wsdr_MAX_PACKET_MASK_def
        Wsdr_MAX_PACKET_SIZE_def Wsdr_EXTRA_RX_DATA_def mult.commute)
qed

lemma Wsdr_getRXPacketSize_mono:
  assumes "0 \<le> s" "s \<le> t" "t \<le> 262016"
  shows "Wsdr_getRXPacketSize s \<le> Wsdr_getRXPacketSize t"
proof -
  have "(4 * s + 511) div 512 \<le> (4 * t + 511) div 512"
    using assms by (intro zdiv_mono1) simp_all
  then show ?thesis
    using assms by (simp add: Wsdr_getRXPacketSize_small)
qed

lemma Wsdr_getRXPacketSize_ge: "Wsdr_getRXPacketSize s \<ge> 2560"
proof -
  have "0 \<le> to_int32 0xFFE00" by (simp add: to_int32_def)
  then have "0 \<le> js_and x 0xFFE00" for x
    by (simp add: js_and_def)
  then show ?thesis
    by (simp add: Wsdr_getRXPacketSize_def Wsdr_PACKET_ALIGN_MASK_def Wsdr_PACKET_ALIGN_def
        Wsdr_MAX_PACKET_MASK_def Wsdr_MAX_PACKET_SIZE_def Wsdr_EXTRA_RX_DATA_def)
qed

lemma Lime_SAMPLES_PER_PACKET_eq: "Lime_SAMPLES_PER_PACKET = 1020"
  by (simp add: Lime_SAMPLES_PER_PACKET_def Lime_PACKET_SIZE_def Lime_HEADER_SIZE_def
      COMPLEX_INT16_SIZE_def INT16_SIZE_def)

lemma Lime_getRXPacketSize_eq: "Lime_getRXPacketSize s = - ((- s) div 1020) * 4096"
  by (simp add: Lime_getRXPacketSize_def js_ceil_div_def Lime_SAMPLES_PER_PACKET_eq
      Lime_PACKET_SIZE_def)

lemma Lime_getRXPacketSize_mono:
  assumes "s \<le> t"
  shows "Lime_getRXPacketSize s \<le> Lime_getRXPacketSize t"
proof -
  have "(- t) div 1020 \<le> (- s) div 1020"
    using assms by (intro zdiv_mono1) simp_all
  then show ?thesis by (simp add: Lime_getRXPacketSize_eq)
qed

lemma Lime_getTXPacketSize_eq:
  assumes "0 \<le> s"
  shows "Lime_getTXPacketSize s =
           s div 1020 * 4096 + (if s mod 1020 > 0 then 16 + s mod 1020 * 4 else 0)"
  using assms
  by (simp add: Lime_getTXPacketSize_def js_floor_div_def Lime_SAMPLES_PER_PACKET_eq
      Lime_PACKET_SIZE_def Lime_HEADER_SIZE_def COMPLEX_INT16_SIZE_def INT16_SIZE_def
      js_rem_nonneg Let_def)

lemma Lime_getTXPacketSize_qr:
  assumes "0 \<le> r" "r < 1020" "0 \<le> 1020 * q + r"
  shows "Lime_getTXPacketSize (1020 * q + r) = q * 4096 + (if r > 0 then 16 + r * 4 else 0)"
proof -
  have "(1020 * q + r) div 1020 = q" using assms by simp
  moreover have "(1020 * q + r) mod 1020 = r" using assms by simp
  ultimately show ?thesis by (simp add: Lime_getTXPacketSize_eq [OF assms(3)])
qed

lemma Lime_getTXPacketSize_mono:
  assumes "0 \<le> s" "s \<le> t"
  shows "Lime_getTXPacketSize s \<le> Lime_getTXPacketSize t"
proof -
  define qs rs qt rt where "qs = s div 1020" and "rs = s mod 1020"
    and "qt = t div 1020" and "rt = t mod 1020"
  have s: "s = 1020 * qs + rs" and t: "t = 1020 * qt + rt"
    by (simp_all add: qs_def rs_def qt_def rt_def)
  have r: "0 \<le> rs" "rs < 1020" "0 \<le> rt" "rt < 1020"
    by (simp_all add: rs_def rt_def)
  have q: "qs \<le> qt"
    unfolding qs_def qt_def using assms by (intro zdiv_mono1) simp_all
  have fs: "Lime_getTXPacketSize s = qs * 4096 + (if rs > 0 then 16 + rs * 4 else 0)"
    unfolding s using r assms(1) s by (intro Lime_getTXPacketSize_qr) simp_all
  have ft: "Lime_getTXPacketSize t = qt * 4096 + (if rt > 0 then 16 + rt * 4 else 0)"
    unfolding t using r assms t by (intro Lime_getTXPacketSize_qr) simp_all
  show ?thesis
  proof (cases "qs = qt")
    case True
    then have "rs \<le> rt" using s t assms by simp
    then show ?thesis using True r by (simp add: fs ft)
  next
    case False
    then have "qs + 1 \<le> qt" using q by simp
    then show ?thesis using r by (simp add: fs ft)
  qed
qed

lemma Lime_getTXPacketSize_ge_header:
  assumes "1 \<le> s"
  shows "16 \<le> Lime_getTXPacketSize s"
proof -
  define qs rs where "qs = s div 1020" and "rs = s mod 1020"
  have s: "s = 1020 * qs + rs"
    by (simp add: qs_def rs_def)
  have r: "0 \<le> rs" "rs < 1020"
    by (simp_all add: rs_def)
  have q: "0 \<le> qs"
    unfolding qs_def using assms by (simp add: pos_imp_zdiv_nonneg_iff)
  have fs: "Lime_getTXPacketSize s = qs * 4096 + (if rs > 0 then 16 + rs * 4 else 0)"
    unfolding s using r assms s by (intro Lime_getTXPacketSize_qr) simp_all
  show ?thesis
  proof (cases "rs = 0")
    case True
    then have "1 \<le> qs" using s assms by simp
    then show ?thesis using True by (simp add: fs)
  next
    case False
    then show ?thesis using r q by (simp add: fs)
  qed
qed

lemma Lime_getRXPacketSize_ge_header:
  assumes "1 \<le> s"
  shows "16 \<le> Lime_getRXPacketSize s"
proof -
  have "(- s) div 1020 \<le> (- 1) div 1020"
    using assms by (intro zdiv_mono1) simp_all
  then have "(- s) div 1020 \<le> - 1" by simp
  then show ?thesis by (simp add: Lime_getRXPacketSize_eq)
qed

text \<open>
  C8 (as stated, refuted). Variant A's receive size is not non-decreasing over all
  non-negative sample counts: the mask \<open>MAX_PACKET_MASK\<close> drops bit 20 and above, so the
  size falls back to the bare metadata margin right after 262016 samples. Variant B's
  sizes are 0, below the 16-byte header, at 0 samples.
\<close>

theorem C8_packet_size_counterexample:
  "Wsdr_getRXPacketSize 262017 < Wsdr_getRXPacketSize 262016
   \<and> Lime_getRXPacketSize 0 < 16 \<and> Lime_getTXPacketSize 0 < 16"
  by (simp add: Wsdr_getRXPacketSize_def js_and_def to_int32_def COMPLEX_INT16_SIZE_def
      INT16_SIZE_def Wsdr_PACKET_ALIGN_MASK_def Wsdr_PACKET_ALIGN_def Wsdr_MAX_PACKET_MASK_def
      Wsdr_MAX_PACKET_SIZE_def Wsdr_EXTRA_RX_DATA_def Lime_getRXPacketSize_eq
      Lime_getTXPacketSize_eq)

text \<open>
  C8 (amended). For sample counts \<open>0 \<le> s \<le> t\<close>: variant A's transmit size and both of
  variant B's sizes are non-decreasing; variant A's receive size is non-decreasing while
  \<open>t \<le> 262016\<close>. Variant A's sizes are at least 16 bytes for every non-negative count,
  variant B's for every count of at least 1.
\<close>

theorem C8_packet_size_monotone:
  assumes "0 \<le> s" "s \<le> t"
  shows "Wsdr_getTXPacketSize s \<le> Wsdr_getTXPacketSize t
    \<and> Lime_getRXPacketSize s \<le> Lime_getRXPacketSize t
    \<and> Lime_getTXPacketSize s \<le> Lime_getTXPacketSize t
    \<and> (t \<le> 262016 \<longrightarrow> Wsdr_getRXPacketSize s \<le> Wsdr_getRXPacketSize t)
    \<and> 16 \<le> Wsdr_getRXPacketSize s \<and> 16 \<le> Wsdr_getTXPacketSize s
    \<and> (1 \<le> s \<longrightarrow> 16 \<le> Lime_getRXPacketSize s \<and> 16 \<le> Lime_getTXPacketSize s)"
proof -
  have 1: "Wsdr_getTXPacketSize s \<le> Wsdr_getTXPacketSize t"
    using assms by (simp add: Wsdr_getTXPacketSize_def COMPLEX_INT16_SIZE_def INT16_SIZE_def)
  have 2: "Lime_getRXPacketSize s \<le> Lime_getRXPacketSize t"
    using assms by (simp add: Lime_getRXPacketSize_mono)
  have 3: "Lime_getTXPacketSize s \<le> Lime_getTXPacketSize t"
    using assms by (simp add: Lime_getTXPacketSize_mono)
  have 4: "t \<le> 262016 \<longrightarrow> Wsdr_getRXPacketSize s \<le> Wsdr_getRXPacketSize t"
    using assms by (simp add: Wsdr_getRXPacketSize_mono)
  have 5: "16 \<le> Wsdr_getRXPacketSize s"
    using Wsdr_getRXPacketSize_ge [of s] by simp
  have 6: "16 \<le> Wsdr_getTXPacketSize s"
    using assms
    by (simp add: Wsdr_getTXPacketSize_def COMPLEX_INT16_SIZE_def INT16_SIZE_def
        Wsdr_HEADER_SIZE_def)
  have 7: "1 \<le> s \<longrightarrow> 16 \<le> Lime_getRXPacketSize s \<and> 16 \<le> Lime_getTXPacketSize s"
    using Lime_getRXPacketSize_ge_header [of s] Lime_getTXPacketSize_ge_header [of s]
    by simp
  from 1 2 3 4 5 6 7 show ?thesis by blast
qed

theorem C8_packet_size_monotone_witness:
  "Wsdr_getTXPacketSize 128 \<le> Wsdr_getTXPacketSize 8192
   \<and> Lime_getRXPacketSize 128 \<le> Lime_getRXPacketSize 8192
   \<and> Lime_getTXPacketSize 128 \<le> Lime_getTXPacketSize 8192
   \<and> Wsdr_getRXPacketSize 128 \<le> Wsdr_getRXPacketSize 8192
   \<and> 16 \<le> Wsdr_getRXPacketSize 128 \<and> 16 \<le> Wsdr_getTXPacketSize 128
   \<and> 16 \<le> Lime_getRXPacketSize 128 \<and> 16 \<le> Lime_getTXPacketSize 128"
  using C8_packet_size_monotone [of 128 8192] by simp

section \<open>Sample conversion\<close>

lemma fold_update_length: "length (fold (\<lambda>i out. out[i := g i]) js out) = length out"
  by (induction js arbitrary: out) simp_all

lemma fold_update_nth:
  "n \<le> length out \<Longrightarrow>
     fold (\<lambda>i out. out[i := g i]) [0..<n] out ! k = (if k < n then g k else out ! k)"
  by (induction n) (auto simp add: fold_update_length nth_list_update less_Suc_eq)

text \<open>
  C7 (as stated, refuted). The float-to-integer direction does not round: storing into the
  \<open>Int16Array\<close> discards the fraction. For the float \<open>0.25\<close> the product is \<open>8191.75\<close>;
  the stored element is 8191, whereas rounding gives 8192.
\<close>

theorem C7_conversion_counterexample:
  "sint (bufferF32ToI16 [1 / 4] None ! 0) = 8191 \<and> round (1 / 4 * 32767 :: real) = 8192"
  by (simp add: bufferF32ToI16_def to_int16_def js_trunc_def round_def)

text \<open>
  C7 (amended). For every index below both lengths, \<open>bufferI16ToF32\<close> produces the
  element divided by 32768, and \<open>bufferF32ToI16\<close> produces the product with 32767
  truncated towards zero and reduced modulo \<open>2 ^ 16\<close> into the signed 16-bit range, with
  no clamping.
\<close>

theorem C7_conversion:
  assumes "i < length input16" "i < length (case out32 of Some ob \<Rightarrow> ob | None \<Rightarrow> replicate (length input16) 0)"
    and "j < length input32" "j < length (case out16 of Some ob \<Rightarrow> ob | None \<Rightarrow> replicate (length input32) 0)"
  shows "bufferI16ToF32 input16 out32 ! i = real_of_int (sint (input16 ! i)) / 32768
    \<and> sint (bufferF32ToI16 input32 out16 ! j)
        = (js_trunc (input32 ! j * 32767) + 32768) mod 65536 - 32768"
proof -
  have "bufferI16ToF32 input16 out32 ! i = real_of_int (sint (input16 ! i)) / 32768"
    using assms(1,2) by (simp add: bufferI16ToF32_def Let_def fold_update_nth)
  moreover have "bufferF32ToI16 input32 out16 ! j = to_int16 (input32 ! j * 32767)"
    using assms(3,4) by (simp add: bufferF32ToI16_def Let_def fold_update_nth)
  ultimately show ?thesis
    by (simp add: to_int16_def int_word_sint)
qed

theorem C7_conversion_witness:
  "bufferI16ToF32 [- 32768, 16384] None ! 1 = 1 / 2
   \<and> sint (bufferF32ToI16 [2, - 3] None ! 1) = - 32765"
  using C7_conversion [of 1 "[- 32768, 16384]" None 1 "[2, - 3]" None]
  by (simp add: js_trunc_def)

section \<open>Header writers\<close>

lemma js_rem_eq_0_iff: "js_rem a b = 0 \<longleftrightarrow> \<bar>a\<bar> mod \<bar>b\<bar> = 0"
  by (simp add: js_rem_def sgn_if)

lemma js_rem_4_eq_0_iff: "js_rem s 4 = 0 \<longleftrightarrow> 4 dvd s"
  by (simp add: js_rem_eq_0_iff mod_eq_0_iff_dvd)

text \<open>
  Each header writer either throws and leaves the buffer as it was, or writes. Variant A
  builds its 16-bit and 64-bit views over the buffer from the offset to its end, so beside
  its two checks the constructors of the views throw when the offset is negative or the
  offset or the byte length of the whole buffer is not a multiple of 8. Variant B bounds
  its \<open>DataView\<close> to the 16 bytes of the header and accepts any alignment.
\<close>

lemma Wsdr_fillHeader_throws_iff:
  "fst (Wsdr_fillHeader buf off d ts s) \<noteq> None \<longleftrightarrow>
      int (length buf) - off < 16 \<or> s < 128 \<or> 8192 < s
      \<or> off < 0 \<or> off mod 8 \<noteq> 0 \<or> int (length buf) mod 8 \<noteq> 0"
proof -
  have e2: "x mod 8 = 0 \<Longrightarrow> x mod 2 = 0" for x :: int
    by presburger
  show ?thesis
    using e2 [of off] e2 [of "int (length buf)"]
    by (auto simp add: Wsdr_fillHeader_def Let_def Wsdr_HEADER_SIZE_def
        Wsdr_MIN_SAMPLES_IN_PKT_def Wsdr_MAX_SAMPLES_IN_PKT_def typed_array_view_ok_def)
qed

lemma Lime_fillHeader_throws_iff:
  "fst (Lime_fillHeader buf off d ts s) \<noteq> None \<longleftrightarrow>
      int (length buf) - off < 16 \<or> \<not> 4 dvd s \<or> off < 0"
  by (auto simp add: Lime_fillHeader_def Let_def Lime_HEADER_SIZE_def data_view_ok_def
      js_rem_4_eq_0_iff)

lemma fillHeader_throws_unchanged:
  "fst (Wsdr_fillHeader buf off d ts s) \<noteq> None \<longrightarrow> snd (Wsdr_fillHeader buf off d ts s) = buf"
  "fst (Lime_fillHeader buf off d ts s) \<noteq> None \<longrightarrow> snd (Lime_fillHeader buf off d ts s) = buf"
  by (simp_all add: Wsdr_fillHeader_def Lime_fillHeader_def Let_def)

text \<open>The buffer \<open>WebUsbWsdr.encodeTxData\<close> allocates for one chunk of \<open>s\<close> samples has
  \<open>s * COMPLEX_INT16_SIZE + HEADER_SIZE\<close> bytes: for an odd \<open>s\<close> that its range check accepts,
  the header writer throws on it.\<close>

lemma Wsdr_fillHeader_odd_samples:
  assumes "128 \<le> s" "s \<le> 8192" "odd s"
  shows "fst (Wsdr_fillHeader (replicate (nat (s * COMPLEX_INT16_SIZE + Wsdr_HEADER_SIZE)) 0)
            0 d ts s) = Some RangeError"
proof -
  have "(s * 4 + 16) mod 8 \<noteq> 0" using assms(3) by presburger
  with assms(1,2) show ?thesis
    by (simp add: Wsdr_fillHeader_def Let_def Wsdr_HEADER_SIZE_def COMPLEX_INT16_SIZE_def
        INT16_SIZE_def Wsdr_MIN_SAMPLES_IN_PKT_def Wsdr_MAX_SAMPLES_IN_PKT_def typed_array_view_ok_def)
qed

text \<open>
  C5. The claim lets variant A throw exactly when the region from the offset is shorter
  than 16 bytes or the sample count is outside \<open>[128, 8192]\<close>. For 129 samples
  \<open>encodeTxData\<close> allocates \<open>129 * 4 + 16 = 532\<close> bytes and calls the header writer on that
  buffer at offset 0: the region has 532 bytes and the count is in range, yet the writer
  throws a \<open>RangeError\<close>, because 532 is not a multiple of 8. Variant B writes its header
  into a buffer of that length.
\<close>

theorem C5_fillHeader_own_buffer:
  "129 * COMPLEX_INT16_SIZE + 1 * Wsdr_HEADER_SIZE = 532
   \<and> \<not> (int (length (replicate 532 (0 :: 8 word))) - 0 < Wsdr_HEADER_SIZE)
   \<and> Wsdr_MIN_SAMPLES_IN_PKT \<le> 129 \<and> 129 \<le> Wsdr_MAX_SAMPLES_IN_PKT
   \<and> Wsdr_fillHeader (replicate 532 0) 0 False 0 129 = (Some RangeError, replicate 532 0)
   \<and> fst (Lime_fillHeader (replicate 532 0) 0 False 0 128) = None"
  by (simp add: Wsdr_fillHeader_def Lime_fillHeader_def Wsdr_HEADER_SIZE_def
      Lime_HEADER_SIZE_def COMPLEX_INT16_SIZE_def INT16_SIZE_def Wsdr_MIN_SAMPLES_IN_PKT_def
      Wsdr_MAX_SAMPLES_IN_PKT_def typed_array_view_ok_def data_view_ok_def js_rem_def Let_def)

section \<open>Device registry\<close>

lemma find_free_range: "find_free i ds = - 1 \<or> (int i \<le> find_free i ds \<and> find_free i ds < int i + int (length ds))"
proof (induction ds arbitrary: i)
  case Nil
  show ?case by simp
next
  case (Cons d ds)
  from Cons [of "Suc i"] show ?case by auto
qed

lemma find_free_none: "find_free i ds = - 1 \<longleftrightarrow> (\<forall>j < length ds. ds ! j \<noteq> None)"
proof (induction ds arbitrary: i)
  case Nil
  show ?case by simp
next
  case (Cons d ds)
  have "(\<forall>j < Suc (length ds). (d # ds) ! j \<noteq> None) \<longleftrightarrow> d \<noteq> None \<and> (\<forall>j < length ds. ds ! j \<noteq> None)"
    by (auto simp add: nth_Cons split: nat.splits)
  with Cons [of "Suc i"] show ?case by auto
qed

lemma find_free_first:
  "find_free i ds \<noteq> - 1 \<Longrightarrow>
     ds ! (nat (find_free i ds) - i) = None \<and> (\<forall>j < nat (find_free i ds) - i. ds ! j \<noteq> None)"
proof (induction ds arbitrary: i)
  case Nil
  then show ?case by simp
next
  case (Cons d ds)
  show ?case
  proof (cases "d = None")
    case True
    then show ?thesis by simp
  next
    case False
    with Cons.prems have ne: "find_free (Suc i) ds \<noteq> - 1" by simp
    from find_free_range [of "Suc i" ds] ne
    have ge: "int (Suc i) \<le> find_free (Suc i) ds" by auto
    then have eq: "nat (find_free (Suc i) ds) - i = Suc (nat (find_free (Suc i) ds) - Suc i)"
      by linarith
    from Cons.IH [OF ne] False show ?thesis
      by (auto simp add: eq nth_Cons split: nat.splits)
  qed
qed

lemma choose_fd_spec:
  "0 \<le> choose_fd ds
   \<and> ((\<forall>j < length ds. ds ! j \<noteq> None) \<longrightarrow> nat (choose_fd ds) = 0)
   \<and> ((\<exists>j < length ds. ds ! j = None) \<longrightarrow>
        nat (choose_fd ds) < length ds \<and> ds ! nat (choose_fd ds) = None
        \<and> (\<forall>j < nat (choose_fd ds). ds ! j \<noteq> None))"
proof -
  consider "find_free 0 ds = - 1" | "find_free 0 ds \<noteq> - 1" by blast
  then show ?thesis
  proof cases
    case 1
    then show ?thesis
      using find_free_none [of 0 ds] by (auto simp add: choose_fd_def)
  next
    case 2
    with find_free_range [of 0 ds] have r: "0 \<le> find_free 0 ds" "find_free 0 ds < int (length ds)"
      by auto
    then have c: "choose_fd ds = find_free 0 ds" by (simp add: choose_fd_def)
    from find_free_first [OF 2] r show ?thesis
      using find_free_none [of 0 ds] 2 by (auto simp add: c)
  qed
qed

lemma set_slot_nth:
  "set_slot xs i v ! j = (if j = i then v else if j < length xs then xs ! j else None)"
  if "j < length (set_slot xs i v)"
  using that by (auto simp add: set_slot_def nth_append nth_list_update)


lemma getWebUsbInstance_fields:
  "getWebUsbInstance k f v p = Some dev \<Longrightarrow> fd dev = f \<and> vid dev = v \<and> pid dev = p"
  by (auto simp add: getWebUsbInstance_def split: option.splits)

lemma DeviceManager_open_new:
  assumes "module_defined m" "find_opened (webUsbDevices m) v p = None"
    and "DeviceManager_open v p usb_ok m = (Some dev, m')"
  shows "webUsbDevices m' = set_slot (webUsbDevices m) (nat (choose_fd (webUsbDevices m))) (Some dev)"
    and "fd dev = (if usb_ok then choose_fd (webUsbDevices m) else - 1)"
    and "vid dev = v" "pid dev = p"
  using assms
  by (auto simp add: DeviceManager_open_def Let_def session_open_def
      dest: getWebUsbInstance_fields split: option.splits if_splits)

text \<open>The table invariant holds initially and is kept by \<open>open\<close> and \<open>close\<close>.\<close>

lemma table_ok_init: "table_ok (webUsbDevices (DeviceManager_init md))"
  by (simp add: table_ok_def DeviceManager_init_def)

lemma table_ok_set_slot:
  assumes "table_ok ds" "case v of None \<Rightarrow> True | Some d \<Rightarrow> fd d = int i \<or> fd d = - 1"
  shows "table_ok (set_slot ds i v)"
  unfolding table_ok_def
proof (intro allI impI)
  fix j d
  assume j: "j < length (set_slot ds i v)" and d: "set_slot ds i v ! j = Some d"
  show "fd d = int j \<or> fd d = - 1"
  proof (cases "j = i")
    case True
    with d j assms(2) show ?thesis by (simp add: set_slot_nth)
  next
    case False
    with d j have "j < length ds" "ds ! j = Some d"
      by (auto simp add: set_slot_nth split: if_splits)
    with assms(1) show ?thesis by (simp add: table_ok_def)
  qed
qed

lemma find_opened_fd:
  "find_opened ds v p = Some dev \<Longrightarrow> \<exists>j < length ds. ds ! j = Some dev"
proof (induction ds)
  case Nil
  then show ?case by simp
next
  case (Cons d ds)
  then show ?case
    by (cases d) (force split: if_splits)+
qed

lemma table_ok_open:
  assumes "table_ok (webUsbDevices m)"
  shows "table_ok (webUsbDevices (snd (DeviceManager_open v p usb_ok m)))"
proof -
  have c: "0 \<le> choose_fd (webUsbDevices m)" using choose_fd_spec by blast
  show ?thesis
    using assms c
    by (auto simp add: DeviceManager_open_def Let_def session_open_def
        intro!: table_ok_set_slot dest!: getWebUsbInstance_fields split: option.splits)
qed

lemma table_ok_close:
  assumes "table_ok (webUsbDevices m)"
  shows "table_ok (webUsbDevices (snd (DeviceManager_close f m)))"
  using assms
  by (auto simp add: DeviceManager_close_def table_ok_def nth_list_update split: if_splits)











section \<open>Receive decoders\<close>

lemma Wsdr_decodeRxData_timestamps:
  assumes "Wsdr_decodeRxData dv n opts ts0 = (Inr r, ts')"
  shows "timestamp r = ts0 + overrun r * samples r \<and> ts' = timestamp r + samples r
    \<and> samples r = n"
  using assms
  by (auto simp add: Wsdr_decodeRxData_def Let_def split: if_splits sum.splits prod.splits)

lemma Lime_decodeRxData_timestamps:
  assumes "Lime_decodeRxData dv n opts l0 = (Inr r, l1)"
  shows "getBigUint64 dv 8 = Inr (timestamp r) \<and> l1 = timestamp r"
  using assms
  by (auto simp add: Lime_decodeRxData_def Let_def split: if_splits sum.splits prod.splits)

text \<open>
  C1 (as stated, refuted). Variant B keeps no running sum. Decoding one 4096-byte
  sub-packet whose header carries the timestamp 5000, in a session whose stored timestamp
  is 100, returns the timestamp 5000 with overrun 0 and 1020 samples, and leaves 5000 as
  the stored timestamp: neither \<open>100 + 0 * 1020\<close> nor \<open>5000 + 1020\<close>.
\<close>

theorem C1_timestamp_counterexample:
  "Lime_decodeRxData
       \<lparr>buffer = replicate 8 0 @ le_bytes 8 5000 @ replicate 4080 0, byteOffset = 0,
        byteLength = 4096\<rparr> 1020 None 100
     = (Inr \<lparr>data_byteLength = 4080, datatype_tag = ci16, ident = - 1, samples = 1020,
             timestamp = 5000, overrun = 0, realigned = 0, dropped = 0, recvsize = 4096\<rparr>,
        5000)
   \<and> (5000 :: int) \<noteq> 100 + 0 * 1020 \<and> (5000 :: int) \<noteq> 5000 + 1020"
  by code_simp

text \<open>
  C1 (amended). On variant A, for every successfully decoded packet the session's running
  timestamp is first incremented by the link-reported overrun times the packet's sample
  count, that value is the returned timestamp, and the running timestamp is then
  incremented by the sample count. On variant B, for every successfully decoded packet
  the returned timestamp is the 64-bit timestamp read from the first sub-packet header
  and the session's stored timestamp is set to that same value.
\<close>

theorem C1_timestamp:
  "(Wsdr_decodeRxData dv n opts ts0 = (Inr r, ts') \<longrightarrow>
      timestamp r = ts0 + overrun r * samples r \<and> ts' = timestamp r + samples r)
   \<and> (Lime_decodeRxData dv n opts ts0 = (Inr r, ts') \<longrightarrow>
      getBigUint64 dv 8 = Inr (timestamp r) \<and> ts' = timestamp r)"
  using Wsdr_decodeRxData_timestamps [of dv n opts ts0 r ts']
    Lime_decodeRxData_timestamps [of dv n opts ts0 r ts']
  by blast

theorem C1_timestamp_witness:
  "Wsdr_decodeRxData
       \<lparr>buffer = replicate 1024 0 @ le_bytes 8 0x1234, byteOffset = 0, byteLength = 1032\<rparr>
       256 None 7
     = (Inr \<lparr>data_byteLength = 1024, datatype_tag = ci16, ident = - 1, samples = 256,
             timestamp = 1192967, overrun = 4660, realigned = 0, dropped = 0,
             recvsize = 1032\<rparr>, 1193223)
   \<and> (1192967 :: int) = 7 + 4660 * 256 \<and> (1193223 :: int) = 1192967 + 256
   \<and> Lime_decodeRxData
       \<lparr>buffer = replicate 8 0 @ le_bytes 8 5000 @ replicate 4080 0, byteOffset = 0,
        byteLength = 4096\<rparr> 1020 None 100
     = (Inr \<lparr>data_byteLength = 4080, datatype_tag = ci16, ident = - 1, samples = 1020,
             timestamp = 5000, overrun = 0, realigned = 0, dropped = 0, recvsize = 4096\<rparr>,
        5000)
   \<and> getBigUint64
       \<lparr>buffer = replicate 8 0 @ le_bytes 8 5000 @ replicate 4080 0, byteOffset = 0,
        byteLength = 4096\<rparr> 8 = Inr 5000"
proof -
  let ?dvA = "\<lparr>buffer = replicate 1024 0 @ le_bytes 8 0x1234, byteOffset = 0,
                byteLength = 1032\<rparr>"
  let ?rA = "\<lparr>data_byteLength = 1024, datatype_tag = ci16, ident = - 1, samples = 256,
               timestamp = 1192967, overrun = 4660, realigned = 0, dropped = 0,
               recvsize = 1032\<rparr>"
  let ?dvB = "\<lparr>buffer = replicate 8 0 @ le_bytes 8 5000 @ replicate 4080 0, byteOffset = 0,
                byteLength = 4096\<rparr>"
  let ?rB = "\<lparr>data_byteLength = 4080, datatype_tag = ci16, ident = - 1, samples = 1020,
               timestamp = 5000, overrun = 0, realigned = 0, dropped = 0, recvsize = 4096\<rparr>"
  have a: "Wsdr_decodeRxData ?dvA 256 None 7 = (Inr ?rA, 1193223)"
    by code_simp
  have b: "Lime_decodeRxData ?dvB 1020 None 100 = (Inr ?rB, 5000)"
    by code_simp
  note 1 = C1_timestamp [of ?dvA 256 None 7 ?rA 1193223, THEN conjunct1, THEN mp, OF a]
  note 2 = C1_timestamp [of ?dvB 1020 None 100 ?rB 5000, THEN conjunct2, THEN mp, OF b,
      THEN conjunct1]
  have 3: "(1192967 :: int) = 7 + 4660 * 256 \<and> (1193223 :: int) = 1192967 + 256"
    using 1 by (simp only: RXBuffer.select_convs)
  have 4: "getBigUint64 ?dvB 8 = Inr 5000"
    using 2 by (simp only: RXBuffer.select_convs)
  from a 3 b 4 show ?thesis by (intro conjI) (elim conjE, assumption)+
qed

section \<open>Worker-backed manager\<close>


lemma guarded_worker:
  "worker m = Some w \<Longrightarrow>
     guarded t op m =
       (Pending (promiseMapId m + 1),
        m\<lparr>promiseMapId := promiseMapId m + 1,
          promiseMap := promiseMap m @ [promiseMapId m + 1],
          posted := posted m @ [(w, \<lparr>msg_type = t, msg_id = promiseMapId m + 1,
                                     msg_fields = Some op\<rparr>)]\<rparr>)"
  by (simp add: guarded_def request_def createPromise_def postMessage_def Let_def)




section \<open>Debounced parameter setter\<close>














section \<open>Transmit pipeline\<close>

lemma tx_inv_init: "tx_inv tx_init"
  by (simp add: tx_inv_def tx_init_def MAX_SEND_DATA_REQUEST_def)

lemma set_sendDataReqCnt_fields:
  "sendDataReqCnt (set_sendDataReqCnt v s) = v"
  "outstanding (set_sendDataReqCnt v s) = outstanding s"
  "next_submission (set_sendDataReqCnt v s) = next_submission s"
  "tx_in (set_sendDataReqCnt v s) = tx_in s"
  "onChangeSendDataReq (set_sendDataReqCnt v s) = None"
  "set (waiting (set_sendDataReqCnt v s) @ ready (set_sendDataReqCnt v s))
     = set (waiting s @ ready s) \<union> (case onChangeSendDataReq s of None \<Rightarrow> {} | Some w \<Rightarrow> {w})"
  by (auto simp add: set_sendDataReqCnt_def Let_def split: option.splits)

lemma set_sendDataReqCnt_distinct:
  assumes "distinct (waiting s @ ready s @ xs)" "\<forall>w. onChangeSendDataReq s = Some w \<longrightarrow> w \<in> set (waiting s)"
  shows "distinct (waiting (set_sendDataReqCnt v s) @ ready (set_sendDataReqCnt v s) @ xs)"
    and "set (waiting (set_sendDataReqCnt v s) @ ready (set_sendDataReqCnt v s)) = set (waiting s @ ready s)"
  using assms
  by (auto simp add: set_sendDataReqCnt_def Let_def distinct_removeAll split: option.splits)

lemma tx_inv_issue:
  assumes "tx_inv s" "sendDataReqCnt s < MAX_SEND_DATA_REQUEST"
    and "w \<notin> set (waiting s @ ready s @ outstanding s)" "w < next_submission s"
  shows "tx_inv (issue_tx w s)"
proof -
  let ?s1 = "set_sendDataReqCnt (sendDataReqCnt s + 1) s"
  have d: "distinct (waiting s @ ready s @ (outstanding s @ [w]))"
    using assms(1,3) by (auto simp add: tx_inv_def)
  have o: "\<forall>w. onChangeSendDataReq s = Some w \<longrightarrow> w \<in> set (waiting s)"
    using assms(1) by (simp add: tx_inv_def)
  note sd = set_sendDataReqCnt_distinct [OF d o, of "sendDataReqCnt s + 1"]
  have st: "set (waiting ?s1) \<union> set (ready ?s1) = set (waiting s) \<union> set (ready s)"
    using sd(2) by simp
  have b: "\<forall>x \<in> set (waiting s) \<union> set (ready s) \<union> set (outstanding s). x < next_submission s"
    using assms(1) by (auto simp add: tx_inv_def)
  have "\<forall>x \<in> set (waiting ?s1) \<union> set (ready ?s1) \<union> set (outstanding s). x < next_submission s"
    unfolding st using b .
  then show ?thesis
    using assms sd(1)
    by (auto simp add: tx_inv_def issue_tx_def Let_def set_sendDataReqCnt_fields)
qed

lemma tx_inv_wait:
  assumes "tx_inv s" "w \<notin> set (waiting s @ ready s @ outstanding s)" "w < next_submission s"
  shows "tx_inv (waitForChangeSendDataReq w s)"
  using assms by (auto simp add: tx_inv_def waitForChangeSendDataReq_def)

lemma tx_inv_wait_or_issue:
  assumes "tx_inv s" "w \<notin> set (waiting s @ ready s @ outstanding s)" "w < next_submission s"
  shows "tx_inv (wait_or_issue w s)"
  using assms by (simp add: wait_or_issue_def tx_inv_wait tx_inv_issue)

lemma tx_inv_next:
  assumes "tx_inv s"
  shows "tx_inv (s\<lparr>next_submission := next_submission s + 1\<rparr>)"
    and "next_submission s \<notin> set (waiting s @ ready s @ outstanding s)"
proof -
  have b: "\<forall>w \<in> set (waiting s @ ready s @ outstanding s). w < next_submission s"
    using assms by (simp add: tx_inv_def)
  then show "next_submission s \<notin> set (waiting s @ ready s @ outstanding s)"
    by blast
  from b have "\<forall>w \<in> set (waiting s @ ready s @ outstanding s). w < next_submission s + 1"
    by fastforce
  with assms show "tx_inv (s\<lparr>next_submission := next_submission s + 1\<rparr>)"
    by (simp add: tx_inv_def)
qed

lemma tx_inv_sendTxRawPacket:
  assumes "tx_inv s"
  shows "tx_inv (sendTxRawPacket allowDrop s)"
proof -
  let ?w = "next_submission s"
  let ?s0 = "s\<lparr>next_submission := ?w + 1\<rparr>"
  have i0: "tx_inv ?s0" and f: "?w \<notin> set (waiting ?s0 @ ready ?s0 @ outstanding ?s0)"
    using tx_inv_next [OF assms] by simp_all
  have l: "?w < next_submission ?s0" by simp
  have d: "tx_inv (?s0\<lparr>dropped_tx := dropped_tx ?s0 @ [?w]\<rparr>)"
    using i0 by (simp add: tx_inv_def)
  have c: "sendDataReqCnt ?s0 < MAX_SEND_DATA_REQUEST" if "\<not> sendDataReqCnt ?s0 \<ge> MAX_SEND_DATA_REQUEST"
    using that by simp
  show ?thesis
    unfolding sendTxRawPacket_def Let_def
    using d tx_inv_wait_or_issue [OF i0 f l] tx_inv_issue [OF i0 c f l]
    by (simp del: tx_state.simps)
qed

lemma tx_inv_resume_tx:
  assumes "tx_inv s"
  shows "tx_inv (resume_tx w s)"
proof (cases "w \<in> set (ready s)")
  case False
  with assms show ?thesis by (simp add: resume_tx_def)
next
  case True
  let ?s0 = "s\<lparr>ready := removeAll w (ready s)\<rparr>"
  have i0: "tx_inv ?s0"
    using assms by (auto simp add: tx_inv_def distinct_removeAll)
  have f: "w \<notin> set (waiting ?s0 @ ready ?s0 @ outstanding ?s0)"
    using assms True by (auto simp add: tx_inv_def)
  have l: "w < next_submission ?s0"
    using assms True by (auto simp add: tx_inv_def)
  from tx_inv_wait_or_issue [OF i0 f l] True show ?thesis
    by (simp add: resume_tx_def)
qed

lemma tx_inv_transfer_done:
  assumes "tx_inv s"
  shows "tx_inv (transfer_done w ok s)"
proof (cases "w \<in> set (outstanding s)")
  case False
  with assms show ?thesis by (simp add: transfer_done_def)
next
  case True
  let ?s0 = "s\<lparr>outstanding := removeAll w (outstanding s)\<rparr>"
  let ?s1 = "set_sendDataReqCnt (sendDataReqCnt ?s0 - 1) ?s0"
  have e: "transfer_done w ok s = ?s1\<lparr>tx_in := tx_in ?s1 + 1\<rparr>"
    using True by (simp add: transfer_done_def Let_def)
  have dso: "distinct (outstanding s)"
    using assms by (simp add: tx_inv_def)
  have len: "length (removeAll w (outstanding s)) = length (outstanding s) - 1"
    using True dso by (simp add: distinct_remove1_removeAll [symmetric] length_remove1)
  have pos: "0 < length (outstanding s)"
    using True by (cases "outstanding s") auto
  have d: "distinct (waiting ?s0 @ ready ?s0 @ removeAll w (outstanding s))"
    using assms by (auto simp add: tx_inv_def distinct_removeAll)
  have o: "\<forall>w. onChangeSendDataReq ?s0 = Some w \<longrightarrow> w \<in> set (waiting ?s0)"
    using assms by (simp add: tx_inv_def)
  note sd = set_sendDataReqCnt_distinct [OF d o, of "sendDataReqCnt ?s0 - 1"]
  have st: "set (waiting ?s1) \<union> set (ready ?s1) = set (waiting s) \<union> set (ready s)"
    using sd(2) by simp
  have b: "\<forall>x \<in> set (waiting s) \<union> set (ready s) \<union> set (outstanding s). x < next_submission s"
    using assms by (auto simp add: tx_inv_def)
  have b1: "\<forall>x \<in> set (waiting ?s1) \<union> set (ready ?s1) \<union> set (removeAll w (outstanding s)).
      x < next_submission s"
    unfolding st using b by auto
  have c: "sendDataReqCnt s = int (length (outstanding s))" "sendDataReqCnt s \<le> MAX_SEND_DATA_REQUEST"
    using assms by (simp_all add: tx_inv_def)
  have 1: "sendDataReqCnt ?s1 = int (length (outstanding ?s1))"
    using c(1) len pos by (cases "outstanding s") (simp_all add: set_sendDataReqCnt_fields)
  have 2: "sendDataReqCnt ?s1 \<le> MAX_SEND_DATA_REQUEST"
    using c by (simp add: set_sendDataReqCnt_fields)
  have 3: "distinct (waiting ?s1 @ ready ?s1 @ outstanding ?s1)"
    using sd(1) by (simp add: set_sendDataReqCnt_fields)
  have 4: "\<forall>x \<in> set (waiting ?s1 @ ready ?s1 @ outstanding ?s1). x < next_submission ?s1"
    using b1 by (simp add: set_sendDataReqCnt_fields)
  have 5: "\<forall>w. onChangeSendDataReq ?s1 = Some w \<longrightarrow> w \<in> set (waiting ?s1)"
    by (simp add: set_sendDataReqCnt_fields)
  have "tx_inv ?s1"
    unfolding tx_inv_def using 1 2 3 4 5 by blast
  then show ?thesis
    unfolding e by (simp add: tx_inv_def)
qed

lemma tx_inv_step: "tx_inv s \<Longrightarrow> tx_inv (tx_step e s)"
  by (cases e) (simp_all add: tx_inv_sendTxRawPacket tx_inv_resume_tx tx_inv_transfer_done)

lemma tx_inv_run: "tx_inv s \<Longrightarrow> tx_inv (tx_run es s)"
  unfolding tx_run_def
  by (induction es arbitrary: s) (simp_all add: tx_inv_step)

lemma set_sendDataReqCnt_tx_in: "tx_in (set_sendDataReqCnt v s) = tx_in s"
  by (simp add: set_sendDataReqCnt_fields)

lemma tx_in_step_mono: "tx_in s \<le> tx_in (tx_step e s)"
  by (cases e)
    (simp_all add: sendTxRawPacket_def resume_tx_def wait_or_issue_def issue_tx_def
      waitForChangeSendDataReq_def transfer_done_def set_sendDataReqCnt_fields Let_def)

lemma tx_in_run_mono: "tx_in s \<le> tx_in (tx_run es s)"
  unfolding tx_run_def
proof (induction es arbitrary: s)
  case Nil
  show ?case by simp
next
  case (Cons e es)
  have "tx_in s \<le> tx_in (tx_step e s)" by (rule tx_in_step_mono)
  also have "\<dots> \<le> tx_in (fold tx_step es (tx_step e s))" by (rule Cons.IH)
  finally show ?case by simp
qed

text \<open>While the counter is at the maximum and no transfer has finished, a step issues
  nothing and leaves the counter where it is.\<close>

lemma tx_blocked_step:
  assumes "MAX_SEND_DATA_REQUEST \<le> sendDataReqCnt s" "tx_in (tx_step e s) = tx_in s"
  shows "sendDataReqCnt (tx_step e s) = sendDataReqCnt s \<and> outstanding (tx_step e s) = outstanding s"
proof (cases e)
  case (Submit allowDrop)
  with assms(1) show ?thesis
    by (simp add: sendTxRawPacket_def wait_or_issue_def waitForChangeSendDataReq_def Let_def)
next
  case (Resume w)
  with assms(1) show ?thesis
    by (simp add: resume_tx_def wait_or_issue_def waitForChangeSendDataReq_def)
next
  case (TransferDone w ok)
  with assms(2) show ?thesis
    by (auto simp add: transfer_done_def Let_def set_sendDataReqCnt_fields split: if_splits)
qed

lemma tx_blocked_run:
  assumes "MAX_SEND_DATA_REQUEST \<le> sendDataReqCnt s" "tx_in (tx_run es s) = tx_in s"
  shows "outstanding (tx_run es s) = outstanding s"
  using assms
proof (induction es arbitrary: s)
  case Nil
  show ?case by (simp add: tx_run_def)
next
  case (Cons e es)
  have r: "tx_run (e # es) s = tx_run es (tx_step e s)" by (simp add: tx_run_def)
  have "tx_in s \<le> tx_in (tx_step e s)" by (rule tx_in_step_mono)
  moreover have "tx_in (tx_step e s) \<le> tx_in (tx_run es (tx_step e s))" by (rule tx_in_run_mono)
  ultimately have e1: "tx_in (tx_step e s) = tx_in s"
    and e2: "tx_in (tx_run es (tx_step e s)) = tx_in (tx_step e s)"
    using Cons.prems(2) unfolding r by linarith+
  from tx_blocked_step [OF Cons.prems(1) e1]
  have k: "sendDataReqCnt (tx_step e s) = sendDataReqCnt s" "outstanding (tx_step e s) = outstanding s"
    by simp_all
  have "MAX_SEND_DATA_REQUEST \<le> sendDataReqCnt (tx_step e s)"
    using Cons.prems(1) k(1) by simp
  from Cons.IH [OF this e2] k(2) show ?case unfolding r by simp
qed

lemma sendTxRawPacket_blocked:
  assumes "MAX_SEND_DATA_REQUEST \<le> sendDataReqCnt s"
  shows "outstanding (sendTxRawPacket False s) = outstanding s"
    and "sendDataReqCnt (sendTxRawPacket False s) = sendDataReqCnt s"
    and "waiting (sendTxRawPacket False s) = waiting s @ [next_submission s]"
  using assms
  by (simp_all add: sendTxRawPacket_def wait_or_issue_def waitForChangeSendDataReq_def Let_def)

lemma transfer_done_decrements:
  assumes "w \<in> set (outstanding s)"
  shows "sendDataReqCnt (transfer_done w ok s) = sendDataReqCnt s - 1"
  using assms by (simp add: transfer_done_def Let_def set_sendDataReqCnt_fields)

text \<open>
  C3. In every state a session reaches from its initial one, the counter equals the number
  of transfers issued and not finished and does not exceed 128. A submission with
  \<open>allowDrop = false\<close> that arrives while the counter is at 128 is not issued then, and in
  whatever way the run goes on it is among the issued transfers only after the count of
  finished transfers has grown. The handler of a finished transfer decrements the counter
  both when the transfer succeeded and when it failed.
\<close>

theorem C3_backpressure:
  "sendDataReqCnt (tx_run es tx_init) \<le> 128
   \<and> sendDataReqCnt (tx_run es tx_init) = int (length (outstanding (tx_run es tx_init)))
   \<and> (128 \<le> sendDataReqCnt (tx_run es tx_init) \<longrightarrow>
        next_submission (tx_run es tx_init)
          \<notin> set (outstanding (sendTxRawPacket False (tx_run es tx_init)))
        \<and> next_submission (tx_run es tx_init)
            \<in> set (waiting (sendTxRawPacket False (tx_run es tx_init)))
        \<and> (\<forall>es'. next_submission (tx_run es tx_init)
                   \<in> set (outstanding (tx_run es' (sendTxRawPacket False (tx_run es tx_init))))
             \<longrightarrow> tx_in (sendTxRawPacket False (tx_run es tx_init))
                  < tx_in (tx_run es' (sendTxRawPacket False (tx_run es tx_init)))))
   \<and> (w \<in> set (outstanding (tx_run es tx_init)) \<longrightarrow>
        sendDataReqCnt (transfer_done w True (tx_run es tx_init))
          = sendDataReqCnt (tx_run es tx_init) - 1
        \<and> sendDataReqCnt (transfer_done w False (tx_run es tx_init))
          = sendDataReqCnt (tx_run es tx_init) - 1)"
proof -
  define s where "s = tx_run es tx_init"
  have i: "tx_inv s"
    unfolding s_def by (intro tx_inv_run tx_inv_init)
  then have 1: "sendDataReqCnt s \<le> 128" and 2: "sendDataReqCnt s = int (length (outstanding s))"
    by (simp_all add: tx_inv_def MAX_SEND_DATA_REQUEST_def)
  have f: "next_submission s \<notin> set (outstanding s)"
    using tx_inv_next(2) [OF i] by simp
  have 3: "next_submission s \<notin> set (outstanding (sendTxRawPacket False s))
        \<and> next_submission s \<in> set (waiting (sendTxRawPacket False s))
        \<and> (\<forall>es'. next_submission s \<in> set (outstanding (tx_run es' (sendTxRawPacket False s)))
             \<longrightarrow> tx_in (sendTxRawPacket False s) < tx_in (tx_run es' (sendTxRawPacket False s)))"
    if m: "128 \<le> sendDataReqCnt s"
  proof (intro conjI allI impI)
    from m have m': "MAX_SEND_DATA_REQUEST \<le> sendDataReqCnt s"
      by (simp add: MAX_SEND_DATA_REQUEST_def)
    note b = sendTxRawPacket_blocked [OF m']
    show "next_submission s \<notin> set (outstanding (sendTxRawPacket False s))"
      using f by (simp add: b(1))
    show "next_submission s \<in> set (waiting (sendTxRawPacket False s))"
      by (simp add: b(3))
    fix es'
    assume o: "next_submission s \<in> set (outstanding (tx_run es' (sendTxRawPacket False s)))"
    have m'': "MAX_SEND_DATA_REQUEST \<le> sendDataReqCnt (sendTxRawPacket False s)"
      using m' by (simp add: b(2))
    show "tx_in (sendTxRawPacket False s) < tx_in (tx_run es' (sendTxRawPacket False s))"
    proof (rule ccontr)
      assume "\<not> tx_in (sendTxRawPacket False s) < tx_in (tx_run es' (sendTxRawPacket False s))"
      with tx_in_run_mono [of "sendTxRawPacket False s" es']
      have "tx_in (tx_run es' (sendTxRawPacket False s)) = tx_in (sendTxRawPacket False s)"
        by linarith
      from tx_blocked_run [OF m'' this] o f show False
        by (simp add: b(1))
    qed
  qed
  have 4: "sendDataReqCnt (transfer_done w True s) = sendDataReqCnt s - 1
        \<and> sendDataReqCnt (transfer_done w False s) = sendDataReqCnt s - 1"
    if "w \<in> set (outstanding s)"
    using that by (simp add: transfer_done_decrements)
  from 1 2 3 4 show ?thesis
    unfolding s_def by blast
qed

theorem C3_backpressure_witness:
  "sendDataReqCnt (tx_run (replicate 128 (Submit False)) tx_init) = 128
   \<and> next_submission (tx_run (replicate 128 (Submit False)) tx_init)
       \<notin> set (outstanding (sendTxRawPacket False (tx_run (replicate 128 (Submit False)) tx_init)))
   \<and> sendDataReqCnt (transfer_done 0 False (tx_run (replicate 128 (Submit False)) tx_init)) = 127"
proof -
  let ?s = "tx_run (replicate 128 (Submit False)) tx_init"
  have a: "sendDataReqCnt ?s = 128" by code_simp
  have b: "0 \<in> set (outstanding ?s)" by code_simp
  note T = C3_backpressure [of "replicate 128 (Submit False)" 0]
  have c: "128 \<le> sendDataReqCnt ?s" by (simp only: a)
  from T c have n: "next_submission ?s \<notin> set (outstanding (sendTxRawPacket False ?s))"
    by blast
  from T b have "sendDataReqCnt (transfer_done 0 False ?s) = sendDataReqCnt ?s - 1"
    by blast
  then have d: "sendDataReqCnt (transfer_done 0 False ?s) = 127"
    by (simp only: a)
  from a n d show ?thesis by (intro conjI)
qed

section \<open>Ring buffer\<close>

lemma cb_size_bounds:
  assumes "cb_ok c"
  shows "0 \<le> cb_size c" "cb_size c \<le> cb_capacity c"
  using assms by (auto simp add: cb_ok_def cb_size_def cb_capacity_def)

lemma js_rem_range:
  assumes "0 \<le> a" "1 \<le> b"
  shows "0 \<le> js_rem a b" "js_rem a b < b"
  using assms by (simp_all add: js_rem_nonneg)

lemma cb_ok_new: "1 \<le> len \<Longrightarrow> cb_ok (CircularBuffer_new len)"
  by (simp add: cb_ok_def CircularBuffer_new_def)

lemma cb_ok_clear: "cb_ok c \<Longrightarrow> cb_ok (cb_clear c)"
  by (simp add: cb_ok_def cb_clear_def)

lemma cb_ok_pop_front: "cb_ok c \<Longrightarrow> cb_ok (cb_pop_front n c)"
  by (auto simp add: cb_ok_def cb_pop_front_def Let_def js_rem_nonneg)

lemma cb_ok_pop_back:
  assumes "cb_ok c"
  shows "cb_ok (cb_pop_back n c)"
proof (cases "n < 1")
  case True
  with assms show ?thesis by (simp add: cb_pop_back_def)
next
  case False
  define k where "k = js_rem n (bufferLen c)"
  have k: "0 \<le> k" "k < bufferLen c"
    using False assms unfolding k_def by (simp_all add: cb_ok_def js_rem_nonneg)
  show ?thesis
    using assms False k
    by (auto simp add: cb_ok_def cb_pop_back_def Let_def k_def [symmetric])
qed

lemma slot_write_length:
  "0 \<le> i \<Longrightarrow> i < int (length xs) \<Longrightarrow> length (slot_write xs i v) = length xs"
  by (simp add: slot_write_def set_slot_def)

lemma cb_ok_push_back:
  assumes "cb_ok c"
  shows "cb_ok (cb_push_back v c)"
proof -
  define c0 where "c0 = (if bufferFull c then cb_pop_front 1 c else c)"
  have o: "cb_ok c0" unfolding c0_def using assms by (simp add: cb_ok_pop_front)
  show ?thesis
    using o unfolding cb_push_back_def Let_def c0_def [symmetric]
    by (auto simp add: cb_ok_def js_rem_nonneg slot_write_length)
qed

lemma cb_ok_push_front:
  assumes "cb_ok c"
  shows "cb_ok (cb_push_front v c)"
proof -
  define c0 where "c0 = (if bufferFull c then cb_pop_back 1 c else c)"
  have o: "cb_ok c0" unfolding c0_def using assms by (simp add: cb_ok_pop_back)
  show ?thesis
    using o unfolding cb_push_front_def Let_def c0_def [symmetric]
    by (auto simp add: cb_ok_def slot_write_length)
qed

lemma cb_ok_set: "cb_ok c \<Longrightarrow> cb_set i v c = Inr c' \<Longrightarrow> cb_ok c'"
  by (auto simp add: cb_ok_def cb_set_def cb_checkIndex_def Let_def slot_write_length
      split: if_splits)

lemma cb_ok_alloc_front:
  assumes "cb_ok c"
  shows "cb_ok (cb_alloc_front n c)"
proof (cases "n < 1")
  case True
  with assms show ?thesis by (simp add: cb_alloc_front_def)
next
  case False
  define free where "free = cb_capacity c - cb_size c"
  have f: "0 \<le> free" "free \<le> bufferLen c"
    using cb_size_bounds [OF assms] by (simp_all add: free_def cb_capacity_def)
  define c0 where "c0 = cb_pop_back (n - free) c"
  have o: "cb_ok c0" unfolding c0_def using assms by (rule cb_ok_pop_back)
  show ?thesis
    using assms False f o
    unfolding cb_alloc_front_def Let_def free_def [symmetric] c0_def [symmetric]
    by (auto simp add: cb_ok_def)
qed

lemma cb_ok_alloc_back:
  assumes "cb_ok c"
  shows "cb_ok (cb_alloc_back n c)"
proof (cases "n < 1")
  case True
  with assms show ?thesis by (simp add: cb_alloc_back_def)
next
  case False
  define free where "free = cb_capacity c - cb_size c"
  define c0 where "c0 = cb_pop_front (n - free) c"
  have o: "cb_ok c0" unfolding c0_def using assms by (rule cb_ok_pop_front)
  show ?thesis
    using assms False o
    unfolding cb_alloc_back_def Let_def free_def [symmetric] c0_def [symmetric]
    by (auto simp add: cb_ok_def js_rem_nonneg)
qed

lemma cb_ok_apply: "cb_ok c \<Longrightarrow> cb_ok (cb_apply op c)"
  by (cases op)
    (auto simp add: cb_ok_clear cb_ok_push_front cb_ok_push_back cb_ok_pop_front
      cb_ok_pop_back cb_ok_alloc_front cb_ok_alloc_back cb_ok_set split: sum.splits)

subsection \<open>The stored elements\<close>

lemma succ_mod:
  fixes h n :: int
  assumes "0 \<le> h" "h < n"
  shows "(h + 1) mod n = (if h + 1 = n then 0 else h + 1)"
  using assms by (simp add: mod_pos_pos_trivial)

lemma mod_shift_inj:
  fixes h i j n :: int
  assumes "0 \<le> i" "i < n" "0 \<le> j" "j < n" "(h + i) mod n = (h + j) mod n"
  shows "i = j"
proof -
  from assms(5) have "n dvd (h + i) - (h + j)" by (simp add: mod_eq_dvd_iff)
  then have d: "n dvd i - j" by simp
  show ?thesis
  proof (rule ccontr)
    assume "i \<noteq> j"
    then have "i - j \<noteq> 0" by simp
    from dvd_imp_le_int [OF this d] have "\<bar>n\<bar> \<le> \<bar>i - j\<bar>" .
    with assms(1-4) show False by linarith
  qed
qed

lemma cb_contents_length: "cb_ok c \<Longrightarrow> length (cb_contents c) = nat (cb_size c)"
  by (simp add: cb_contents_def)

lemma cb_contents_nth:
  "i < nat (cb_size c) \<Longrightarrow>
     cb_contents c ! i = slot_read (buffer_slots c) ((bufferHead c + int i) mod bufferLen c)"
  by (simp add: cb_contents_def)

lemma cb_isEmpty_size: "cb_ok c \<Longrightarrow> cb_isEmpty c \<longleftrightarrow> cb_size c = 0"
  by (auto simp add: cb_ok_def cb_isEmpty_def cb_size_def)

lemma cb_isEmpty_contents: "cb_ok c \<Longrightarrow> cb_isEmpty c \<longleftrightarrow> cb_contents c = []"
  using cb_size_bounds(1) [of c]
  by (simp add: cb_isEmpty_size cb_contents_def)

lemma cb_front_contents:
  assumes "cb_ok c" "\<not> cb_isEmpty c"
  shows "cb_front c = hd (cb_contents c)"
proof -
  have "0 < cb_size c"
    using assms cb_size_bounds(1) [of c] by (simp add: cb_isEmpty_size)
  then have n: "0 < nat (cb_size c)" by simp
  then have "cb_contents c \<noteq> []" by (simp add: cb_contents_def)
  then have "hd (cb_contents c) = cb_contents c ! 0" by (simp add: hd_conv_nth)
  also have "\<dots> = slot_read (buffer_slots c) (bufferHead c mod bufferLen c)"
    using cb_contents_nth [OF n] by simp
  also have "bufferHead c mod bufferLen c = bufferHead c"
    using assms(1) by (simp add: cb_ok_def)
  finally show ?thesis by (simp add: cb_front_def)
qed

lemma cb_pop_front_1:
  assumes "cb_ok c"
  shows "bufferHead (cb_pop_front 1 c) = (bufferHead c + 1) mod bufferLen c"
    and "bufferLen (cb_pop_front 1 c) = bufferLen c"
    and "buffer_slots (cb_pop_front 1 c) = buffer_slots c"
    and "cb_size (cb_pop_front 1 c) = (if cb_size c = 0 then 0 else cb_size c - 1)"
    and "\<not> bufferFull (cb_pop_front 1 c)"
proof -
  have h: "0 \<le> bufferHead c" "bufferHead c < bufferLen c" "0 \<le> bufferTail c"
    "bufferTail c < bufferLen c" "bufferFull c \<longrightarrow> bufferHead c = bufferTail c"
    using assms by (simp_all add: cb_ok_def)
  have r: "js_rem (bufferHead c + 1) (bufferLen c) = (bufferHead c + 1) mod bufferLen c"
    using h by (simp add: js_rem_nonneg)
  show "bufferHead (cb_pop_front 1 c) = (bufferHead c + 1) mod bufferLen c"
    by (simp add: cb_pop_front_def Let_def r)
  show "bufferLen (cb_pop_front 1 c) = bufferLen c"
    by (simp add: cb_pop_front_def Let_def)
  show "buffer_slots (cb_pop_front 1 c) = buffer_slots c"
    by (simp add: cb_pop_front_def Let_def)
  show "\<not> bufferFull (cb_pop_front 1 c)"
    by (simp add: cb_pop_front_def Let_def)
  have hd': "bufferHead (cb_pop_front 1 c)
      = (if bufferHead c + 1 = bufferLen c then 0 else bufferHead c + 1)"
    by (simp add: cb_pop_front_def Let_def r succ_mod [OF h(1,2)])
  have tl': "bufferTail (cb_pop_front 1 c)
      = (if 1 \<ge> cb_size c then bufferHead (cb_pop_front 1 c) else bufferTail c)"
    by (simp add: cb_pop_front_def Let_def)
  have nf: "\<not> bufferFull (cb_pop_front 1 c)"
    by (simp add: cb_pop_front_def Let_def)
  have ln: "bufferLen (cb_pop_front 1 c) = bufferLen c"
    by (simp add: cb_pop_front_def Let_def)
  show "cb_size (cb_pop_front 1 c) = (if cb_size c = 0 then 0 else cb_size c - 1)"
    unfolding cb_size_def [of "cb_pop_front 1 c"] tl' hd' ln
    using h nf by (auto simp add: cb_size_def)
qed

lemma cb_contents_pop_front:
  assumes "cb_ok c"
  shows "cb_contents (cb_pop_front 1 c) = tl (cb_contents c)"
proof (rule nth_equalityI)
  note p = cb_pop_front_1 [OF assms]
  have s0: "0 \<le> cb_size c" using cb_size_bounds(1) [OF assms] .
  show l: "length (cb_contents (cb_pop_front 1 c)) = length (tl (cb_contents c))"
    using s0 by (auto simp add: cb_contents_def p(4) nat_diff_distrib)
  fix i
  assume "i < length (cb_contents (cb_pop_front 1 c))"
  then have i: "i < nat (cb_size (cb_pop_front 1 c))" by (simp add: cb_contents_def)
  then have i': "Suc i < nat (cb_size c)"
    using s0 by (auto simp add: p(4) split: if_splits)
  have "cb_contents (cb_pop_front 1 c) ! i
      = slot_read (buffer_slots c) (((bufferHead c + 1) mod bufferLen c + int i) mod bufferLen c)"
    using cb_contents_nth [OF i] by (simp add: p)
  also have "((bufferHead c + 1) mod bufferLen c + int i) mod bufferLen c
      = (bufferHead c + int (Suc i)) mod bufferLen c"
  proof -
    have "((bufferHead c + 1) mod bufferLen c + int i) mod bufferLen c
        = (bufferHead c + 1 + int i) mod bufferLen c"
      by (rule mod_add_left_eq)
    also have "bufferHead c + 1 + int i = bufferHead c + int (Suc i)" by simp
    finally show ?thesis .
  qed
  also have "slot_read (buffer_slots c) \<dots> = cb_contents c ! Suc i"
    using cb_contents_nth [OF i'] by simp
  also have "\<dots> = tl (cb_contents c) ! i"
    using i' by (simp add: nth_tl cb_contents_def)
  finally show "cb_contents (cb_pop_front 1 c) ! i = tl (cb_contents c) ! i" .
qed

lemma slot_read_write:
  assumes "0 \<le> i" "i < int (length xs)"
  shows "slot_read (slot_write xs i v) j = (if j = i then Some v else slot_read xs j)"
  using assms
  by (auto simp add: slot_read_def slot_write_def set_slot_def nth_list_update)

lemma cb_push_back_not_full:
  assumes "cb_ok c" "\<not> bufferFull c"
  shows "cb_contents (cb_push_back v c) = cb_contents c @ [Some v]"
proof (rule nth_equalityI)
  have h: "0 \<le> bufferHead c" "bufferHead c < bufferLen c" "0 \<le> bufferTail c"
    "bufferTail c < bufferLen c" "int (length (buffer_slots c)) = bufferLen c"
    using assms by (simp_all add: cb_ok_def)
  let ?c' = "cb_push_back v c"
  have r: "js_rem (bufferTail c + 1) (bufferLen c) = (bufferTail c + 1) mod bufferLen c"
    using h by (simp add: js_rem_nonneg)
  have f: "bufferHead ?c' = bufferHead c" "bufferLen ?c' = bufferLen c"
    "buffer_slots ?c' = slot_write (buffer_slots c) (bufferTail c) v"
    using assms(2) by (simp_all add: cb_push_back_def Let_def)
  have n: "0 \<le> cb_size c" "cb_size c < bufferLen c"
    using h assms(2) by (auto simp add: cb_size_def)
  have tl': "bufferTail ?c' = (if bufferTail c + 1 = bufferLen c then 0 else bufferTail c + 1)"
    using assms(2) by (simp add: cb_push_back_def Let_def r succ_mod [OF h(3,4)])
  have fl: "bufferFull ?c' = (bufferHead c = bufferTail ?c')"
    using assms(2) by (simp add: cb_push_back_def Let_def)
  have sz: "cb_size ?c' = cb_size c + 1"
    using h assms(2) by (auto simp add: cb_size_def f(1,2) fl tl')
  have t: "(bufferHead c + cb_size c) mod bufferLen c = bufferTail c"
    using h assms(2) by (auto simp add: cb_size_def)
  show "length (cb_contents ?c') = length (cb_contents c @ [Some v])"
    using n by (simp add: cb_contents_def sz nat_add_distrib)
  fix i
  assume "i < length (cb_contents ?c')"
  then have i: "i < nat (cb_size ?c')" by (simp add: cb_contents_def)
  then have ile: "int i \<le> cb_size c" using sz by simp
  have e: "cb_contents ?c' ! i
      = slot_read (slot_write (buffer_slots c) (bufferTail c) v)
          ((bufferHead c + int i) mod bufferLen c)"
    using cb_contents_nth [OF i] by (simp add: f)
  show "cb_contents ?c' ! i = (cb_contents c @ [Some v]) ! i"
  proof (cases "int i = cb_size c")
    case True
    then have "(bufferHead c + int i) mod bufferLen c = bufferTail c" using t by simp
    moreover have "i = length (cb_contents c)" using True by (simp add: cb_contents_def)
    ultimately show ?thesis
      unfolding e using h by (simp add: slot_read_write)
  next
    case False
    with ile have lt: "int i < cb_size c" by simp
    then have i2: "i < nat (cb_size c)" by simp
    have "(bufferHead c + int i) mod bufferLen c \<noteq> bufferTail c"
    proof
      assume "(bufferHead c + int i) mod bufferLen c = bufferTail c"
      with t have "(bufferHead c + int i) mod bufferLen c
          = (bufferHead c + cb_size c) mod bufferLen c" by simp
      from mod_shift_inj [OF _ _ n(1) n(2) this] lt n show False by simp
    qed
    then have "cb_contents ?c' ! i
        = slot_read (buffer_slots c) ((bufferHead c + int i) mod bufferLen c)"
      unfolding e using h by (simp add: slot_read_write)
    also have "\<dots> = cb_contents c ! i" using cb_contents_nth [OF i2] by simp
    finally show ?thesis using i2 by (simp add: nth_append cb_contents_def)
  qed
qed

lemma cb_push_back_full_eq:
  assumes "bufferFull c"
  shows "cb_push_back v c = cb_push_back v (cb_pop_front 1 c)"
  using assms by (simp add: cb_push_back_def cb_pop_front_def Let_def)

lemma cb_contents_push_back:
  assumes "cb_ok c"
  shows "cb_contents (cb_push_back v c)
      = (if bufferFull c then tl (cb_contents c) else cb_contents c) @ [Some v]"
proof (cases "bufferFull c")
  case False
  with assms show ?thesis by (simp add: cb_push_back_not_full)
next
  case True
  have o: "cb_ok (cb_pop_front 1 c)" using assms by (rule cb_ok_pop_front)
  have nf: "\<not> bufferFull (cb_pop_front 1 c)" using cb_pop_front_1(5) [OF assms] .
  show ?thesis
    using True cb_push_back_not_full [OF o nf, of v]
    by (simp add: cb_push_back_full_eq [OF True] cb_contents_pop_front [OF assms])
qed

lemma cb_pop_back_1:
  assumes "cb_ok c"
  shows "bufferLen (cb_pop_back 1 c) = bufferLen c"
    and "buffer_slots (cb_pop_back 1 c) = buffer_slots c"
    and "cb_size (cb_pop_back 1 c) = (if cb_size c = 0 then 0 else cb_size c - 1)"
    and "2 \<le> cb_size c \<Longrightarrow> bufferHead (cb_pop_back 1 c) = bufferHead c"
    and "\<not> bufferFull (cb_pop_back 1 c)"
proof -
  have h: "0 \<le> bufferHead c" "bufferHead c < bufferLen c" "0 \<le> bufferTail c"
    "bufferTail c < bufferLen c" "bufferFull c \<longrightarrow> bufferHead c = bufferTail c"
    using assms by (simp_all add: cb_ok_def)
  have r: "js_rem 1 (bufferLen c) = (if bufferLen c = 1 then 0 else 1)"
    using h by (auto simp add: js_rem_nonneg)
  show "bufferLen (cb_pop_back 1 c) = bufferLen c"
    by (simp add: cb_pop_back_def Let_def)
  show "buffer_slots (cb_pop_back 1 c) = buffer_slots c"
    by (simp add: cb_pop_back_def Let_def)
  show nf: "\<not> bufferFull (cb_pop_back 1 c)"
    by (simp add: cb_pop_back_def Let_def)
  have tl': "bufferTail (cb_pop_back 1 c)
      = (if bufferLen c = 1 then bufferTail c
         else if bufferTail c = 0 then bufferLen c - 1 else bufferTail c - 1)"
    using h by (auto simp add: cb_pop_back_def Let_def r)
  have hd': "bufferHead (cb_pop_back 1 c)
      = (if 1 \<ge> cb_size c then bufferTail (cb_pop_back 1 c) else bufferHead c)"
    by (simp add: cb_pop_back_def Let_def)
  have ln: "bufferLen (cb_pop_back 1 c) = bufferLen c"
    by (simp add: cb_pop_back_def Let_def)
  show "2 \<le> cb_size c \<Longrightarrow> bufferHead (cb_pop_back 1 c) = bufferHead c"
    by (simp add: hd')
  show "cb_size (cb_pop_back 1 c) = (if cb_size c = 0 then 0 else cb_size c - 1)"
    unfolding cb_size_def [of "cb_pop_back 1 c"] hd' ln
    using h nf by (auto simp add: cb_size_def tl')
qed

lemma cb_contents_pop_back:
  assumes "cb_ok c"
  shows "cb_contents (cb_pop_back 1 c) = butlast (cb_contents c)"
proof (cases "2 \<le> cb_size c")
  case True
  note p = cb_pop_back_1 [OF assms]
  have "cb_contents (cb_pop_back 1 c)
      = map (\<lambda>i. slot_read (buffer_slots c) ((bufferHead c + int i) mod bufferLen c))
          [0..<nat (cb_size c - 1)]"
    using True by (simp add: cb_contents_def p)
  also have "[0..<nat (cb_size c - 1)] = butlast [0..<nat (cb_size c)]"
    using True by (simp add: nat_diff_distrib butlast_conv_take)
  finally show ?thesis by (simp add: cb_contents_def map_butlast)
next
  case False
  note p = cb_pop_back_1 [OF assms]
  have s0: "0 \<le> cb_size c" using cb_size_bounds(1) [OF assms] .
  from False s0 have "cb_size (cb_pop_back 1 c) = 0" by (auto simp add: p(3))
  then have a: "cb_contents (cb_pop_back 1 c) = []" by (simp add: cb_contents_def)
  from False s0 have "nat (cb_size c) \<le> 1" by simp
  then have "length (cb_contents c) \<le> 1" by (simp add: cb_contents_def)
  then have "butlast (cb_contents c) = []"
    by (cases "cb_contents c") (auto simp add: butlast.simps split: if_splits)
  with a show ?thesis by simp
qed

lemma cb_push_front_not_full:
  assumes "cb_ok c" "\<not> bufferFull c"
  shows "cb_contents (cb_push_front v c) = Some v # cb_contents c"
proof (rule nth_equalityI)
  have h: "0 \<le> bufferHead c" "bufferHead c < bufferLen c" "0 \<le> bufferTail c"
    "bufferTail c < bufferLen c" "int (length (buffer_slots c)) = bufferLen c"
    using assms by (simp_all add: cb_ok_def)
  let ?c' = "cb_push_front v c"
  define h' where "h' = (if bufferHead c - 1 < 0 then bufferLen c - 1 else bufferHead c - 1)"
  have hr: "0 \<le> h'" "h' < bufferLen c" using h by (auto simp add: h'_def)
  have f: "bufferHead ?c' = h'" "bufferLen ?c' = bufferLen c"
    "buffer_slots ?c' = slot_write (buffer_slots c) h' v" "bufferTail ?c' = bufferTail c"
    "bufferFull ?c' = (h' = bufferTail c)"
    using assms(2) by (simp_all add: cb_push_front_def Let_def h'_def)
  have n: "0 \<le> cb_size c" "cb_size c < bufferLen c"
    using h assms(2) by (auto simp add: cb_size_def)
  have sz: "cb_size ?c' = cb_size c + 1"
    using h assms(2) by (auto simp add: cb_size_def f h'_def)
  have hm: "(h' + 1) mod bufferLen c = bufferHead c"
    using h by (auto simp add: h'_def)
  show "length (cb_contents ?c') = length (Some v # cb_contents c)"
    using n by (simp add: cb_contents_def sz nat_add_distrib)
  fix i
  assume "i < length (cb_contents ?c')"
  then have i: "i < nat (cb_size ?c')" by (simp add: cb_contents_def)
  have e: "cb_contents ?c' ! i
      = slot_read (slot_write (buffer_slots c) h' v) ((h' + int i) mod bufferLen c)"
    using cb_contents_nth [OF i] by (simp add: f)
  show "cb_contents ?c' ! i = (Some v # cb_contents c) ! i"
  proof (cases i)
    case 0
    then show ?thesis unfolding e using hr h by (simp add: slot_read_write)
  next
    case (Suc j)
    with i sz have j: "j < nat (cb_size c)" by simp
    then have jb: "0 \<le> int (Suc j)" "int (Suc j) < bufferLen c" using n by simp_all
    define q where "q = (h' + int (Suc j)) mod bufferLen c"
    have ne: "q \<noteq> h'"
    proof
      assume "q = h'"
      then have "(h' + int (Suc j)) mod bufferLen c = (h' + 0) mod bufferLen c"
        using hr by (simp add: q_def)
      from mod_shift_inj [OF jb _ _ this] jb show False by simp
    qed
    have hl: "h' < int (length (buffer_slots c))" using hr h by simp
    have "cb_contents ?c' ! i = slot_read (slot_write (buffer_slots c) h' v) q"
      using e by (simp only: Suc q_def)
    also have "\<dots> = slot_read (buffer_slots c) q"
      using ne by (simp add: slot_read_write [OF hr(1) hl])
    finally have "cb_contents ?c' ! i
        = slot_read (buffer_slots c) ((h' + int (Suc j)) mod bufferLen c)"
      by (simp only: q_def)
    also have "(h' + int (Suc j)) mod bufferLen c = (bufferHead c + int j) mod bufferLen c"
    proof -
      have "h' + int (Suc j) = (h' + 1) + int j" by simp
      then have "(h' + int (Suc j)) mod bufferLen c = ((h' + 1) + int j) mod bufferLen c"
        by (rule arg_cong)
      also have "\<dots> = ((h' + 1) mod bufferLen c + int j) mod bufferLen c"
        by (rule mod_add_left_eq [symmetric])
      finally show ?thesis by (simp add: hm)
    qed
    also have "slot_read (buffer_slots c) \<dots> = cb_contents c ! j"
      using cb_contents_nth [OF j] by simp
    finally show ?thesis by (simp add: Suc)
  qed
qed

lemma cb_push_front_full_eq:
  assumes "bufferFull c"
  shows "cb_push_front v c = cb_push_front v (cb_pop_back 1 c)"
  using assms by (simp add: cb_push_front_def cb_pop_back_def Let_def)

lemma cb_contents_push_front:
  assumes "cb_ok c"
  shows "cb_contents (cb_push_front v c)
      = Some v # (if bufferFull c then butlast (cb_contents c) else cb_contents c)"
proof (cases "bufferFull c")
  case False
  with assms show ?thesis by (simp add: cb_push_front_not_full)
next
  case True
  have o: "cb_ok (cb_pop_back 1 c)" using assms by (rule cb_ok_pop_back)
  have nf: "\<not> bufferFull (cb_pop_back 1 c)" using cb_pop_back_1(5) [OF assms] .
  show ?thesis
    using True cb_push_front_not_full [OF o nf, of v]
    by (simp add: cb_push_front_full_eq [OF True] cb_contents_pop_back [OF assms])
qed

section \<open>Command channel\<close>

text \<open>
  C2. Two commands are enqueued back to back and the first round trip delivers; before the
  continuation of \<open>runCommandPool\<close> runs, a third command is enqueued from another job.
  \<open>_sendCommand\<close> has already cleared the flag, so a second invocation of
  \<open>runCommandPool\<close> starts and issues the request still at the front, the first one, again.
  When the first invocation resumes, it issues the second command: two native round trips
  are in progress, and the first request has been sent twice.
\<close>

theorem C2_single_flight_violated:
  "in_flight (cmd_run [SendCommand 10, SendCommand 11, NativeReply 0 (Reply_object 0),
                       SendCommand 12, PoolResume 0] cmd_init)
     = [(1, 0), (0, 1)]
   \<and> native_log (cmd_run [SendCommand 10, SendCommand 11, NativeReply 0 (Reply_object 0),
                         SendCommand 12, PoolResume 0] cmd_init)
     = [(0, 0), (1, 0), (0, 1)]"
  by code_simp

subsection \<open>Requests that drop out of the queue\<close>

lemma queued_pop_front:
  assumes "cb_ok (commands s)"
  shows "set (queued (s\<lparr>commands := cb_pop_front 1 (commands s)\<rparr>)) \<subseteq> set (queued s)"
proof -
  have "set (tl (cb_contents (commands s))) \<subseteq> set (cb_contents (commands s))"
    by (cases "cb_contents (commands s)") auto
  then show ?thesis
    unfolding queued_def by (auto simp add: cb_contents_pop_front [OF assms])
qed

lemma queued_front:
  assumes "cb_ok (commands s)" "\<not> cb_isEmpty (commands s)" "cb_front (commands s) = Some c"
  shows "cid c \<in> set (queued s)"
proof -
  have ne: "cb_contents (commands s) \<noteq> []"
    using assms(1,2) by (simp add: cb_isEmpty_contents)
  have "hd (cb_contents (commands s)) = Some c"
    using cb_front_contents [OF assms(1,2)] assms(3) by simp
  with ne have "Some c \<in> set (cb_contents (commands s))"
    by (metis list.set_sel(1))
  then show ?thesis unfolding queued_def by force
qed

lemma held_end_pool_set_pool:
  "set (held (end_pool p (set_pool p pc s))) = set (held (end_pool p s))"
  by (auto simp add: held_def end_pool_def set_pool_def)

lemma held_set_pool:
  "set (held (set_pool p pc s))
     = set (held (end_pool p s)) \<union> {case pc of AwaitNative c \<Rightarrow> cid c | AwaitReturn c r \<Rightarrow> cid c}"
  by (auto simp add: held_def end_pool_def set_pool_def)

lemma pool_loop_keeps:
  assumes "cb_ok (commands s)" "length (cb_contents (commands s)) < n"
  shows "cb_ok (commands (pool_loop n p s))
    \<and> diverged (pool_loop n p s) = diverged s
    \<and> settled (pool_loop n p s) = settled s
    \<and> next_cid (pool_loop n p s) = next_cid s
    \<and> (absent_but p x s \<longrightarrow>
          absent x (pool_loop n p s) \<and> (is_sent x (pool_loop n p s) \<longleftrightarrow> is_sent x s))"
  using assms
proof (induction n arbitrary: s)
  case 0
  then show ?case by simp
next
  case (Suc n)
  show ?case
  proof (cases "cb_isEmpty (commands s)")
    case True
    then show ?thesis
      using Suc.prems(1)
      by (auto simp add: absent_but_def absent_def queued_def held_def end_pool_def
          is_sent_def)
  next
    case False
    show ?thesis
    proof (cases "cb_front (commands s)")
      case (Some c)
      have e: "pool_loop (Suc n) p s = sendCommand_enter p c s"
        using False Some by simp
      have q: "cid c \<in> set (queued s)" using queued_front [OF Suc.prems(1) False Some] .
      have 1: "commands (sendCommand_enter p c s) = commands s"
        "diverged (sendCommand_enter p c s) = diverged s"
        "settled (sendCommand_enter p c s) = settled s"
        "next_cid (sendCommand_enter p c s) = next_cid s"
        by (simp_all add: sendCommand_enter_def set_pool_def Let_def)
      have 2: "set (held (sendCommand_enter p c s)) = set (held (end_pool p s)) \<union> {cid c}"
        by (auto simp add: sendCommand_enter_def Let_def held_def end_pool_def set_pool_def)
      have 3: "queued (sendCommand_enter p c s) = queued s"
        by (simp add: queued_def 1)
      have 4: "snd ` set (native_log (sendCommand_enter p c s))
          \<subseteq> snd ` set (native_log s) \<union> {cid c}"
        "snd ` set (native_log s) \<subseteq> snd ` set (native_log (sendCommand_enter p c s))"
        by (auto simp add: sendCommand_enter_def Let_def set_pool_def)
      show ?thesis
        unfolding e using Suc.prems(1) q 4
        by (auto simp add: 1 2 3 absent_but_def absent_def is_sent_def)
    next
      case None
      let ?s' = "s\<lparr>commands := cb_pop_front 1 (commands s)\<rparr>"
      have e: "pool_loop (Suc n) p s = pool_loop n p ?s'"
        using False None by simp
      have o: "cb_ok (commands ?s')" using Suc.prems(1) by (simp add: cb_ok_pop_front)
      have ne: "cb_contents (commands s) \<noteq> []"
        using Suc.prems(1) False by (simp add: cb_isEmpty_contents)
      have l: "length (cb_contents (commands ?s')) < n"
        using Suc.prems ne
        by (cases "cb_contents (commands s)") (simp_all add: cb_contents_pop_front)
      have a: "absent_but p x s \<longrightarrow> absent_but p x ?s'"
        using queued_pop_front [OF Suc.prems(1)]
        by (auto simp add: absent_but_def held_def end_pool_def)
      have b: "is_sent x ?s' \<longleftrightarrow> is_sent x s" by (simp add: is_sent_def)
      from Suc.IH [OF o l] a b show ?thesis
        unfolding e by simp
    qed
  qed
qed

lemma pool_fuel_enough: "cb_ok (commands s) \<Longrightarrow> length (cb_contents (commands s)) < pool_fuel s"
  by (simp add: pool_fuel_def cb_contents_length)

lemma absent_imp_absent_but: "absent x s \<Longrightarrow> absent_but p x s"
  by (auto simp add: absent_def absent_but_def held_def end_pool_def)

lemma queued_push_back:
  assumes "cb_ok (commands s)"
  shows "set (queued (s\<lparr>commands := cb_push_back c (commands s), next_cid := k\<rparr>))
      \<subseteq> set (queued s) \<union> {cid c}"
proof -
  have "set (tl (cb_contents (commands s))) \<subseteq> set (cb_contents (commands s))"
    by (cases "cb_contents (commands s)") auto
  then show ?thesis
    unfolding queued_def by (auto simp add: cb_contents_push_back [OF assms] split: if_splits)
qed

lemma absent_step:
  assumes "cb_ok (commands s)" "absent x s" "x < next_cid s"
  shows "cb_ok (commands (cmd_step e s)) \<and> absent x (cmd_step e s)
    \<and> x < next_cid (cmd_step e s)
    \<and> (is_settled x (cmd_step e s) \<longleftrightarrow> is_settled x s)
    \<and> (is_sent x (cmd_step e s) \<longleftrightarrow> is_sent x s)
    \<and> diverged (cmd_step e s) = diverged s"
proof (cases e)
  case (SendCommand r)
  let ?c = "\<lparr>req = r, cid = next_cid s\<rparr>"
  let ?s1 = "s\<lparr>commands := cb_push_back ?c (commands s), next_cid := next_cid s + 1\<rparr>"
  have o1: "cb_ok (commands ?s1)" using assms(1) by (simp add: cb_ok_push_back)
  have a1: "absent x ?s1"
    using assms(2,3) queued_push_back [OF assms(1), where c = ?c and k = "next_cid s + 1"]
    by (auto simp add: absent_def held_def)
  have n1: "x < next_cid ?s1" using assms(3) by simp
  have st1: "settled ?s1 = settled s" "diverged ?s1 = diverged s" by simp_all
  show ?thesis
  proof (cases "sendCommandInProcess ?s1")
    case True
    then have "cmd_step e s = ?s1"
      by (simp add: SendCommand sendCommand_def runCommandPool_def Let_def)
    with o1 a1 n1 show ?thesis by (simp add: is_settled_def is_sent_def)
  next
    case False
    let ?p = "next_pool ?s1"
    let ?s2 = "?s1\<lparr>sendCommandInProcess := True, next_pool := ?p + 1\<rparr>"
    have e: "cmd_step e s = pool_loop (pool_fuel ?s2) ?p ?s2"
      using False by (simp add: SendCommand sendCommand_def runCommandPool_def Let_def)
    have o2: "cb_ok (commands ?s2)" using o1 by simp
    have a2: "absent_but ?p x ?s2"
      using a1 by (auto simp add: absent_def absent_but_def queued_def held_def end_pool_def)
    from pool_loop_keeps [OF o2 pool_fuel_enough [OF o2], of ?p x] a2 n1
    show ?thesis unfolding e by (simp add: is_settled_def is_sent_def)
  qed
next
  case (NativeReply p res)
  show ?thesis
  proof (cases "map_of (pools s) p")
    case None
    with assms show ?thesis by (simp add: NativeReply native_reply_def)
  next
    case (Some pc)
    show ?thesis
    proof (cases pc)
      case (AwaitReturn c r)
      with Some assms show ?thesis by (simp add: NativeReply native_reply_def)
    next
      case (AwaitNative c)
      from Some have "(p, pc) \<in> set (pools s)" by (rule map_of_SomeD)
      then have hc: "cid c \<in> set (held s)"
        unfolding held_def AwaitNative by force
      have k: "set (held (set_pool p (AwaitReturn c r') s')) \<subseteq> set (held s') \<union> {cid c}" for r' s'
        by (auto simp add: held_def set_pool_def)
      have "absent x (set_pool p (AwaitReturn c r') (s\<lparr>sendCommandInProcess := b\<rparr>))" for r' b
        using assms(2) hc k [of r' "s\<lparr>sendCommandInProcess := b\<rparr>"]
        by (auto simp add: absent_def queued_def set_pool_def held_def)
      moreover have "absent x (set_pool p (AwaitReturn c r') s)" for r'
        using assms(2) hc k [of r' s]
        by (auto simp add: absent_def queued_def set_pool_def held_def)
      ultimately show ?thesis
        using assms Some AwaitNative
        by (simp add: NativeReply native_reply_def is_settled_def is_sent_def set_pool_def)
    qed
  qed
next
  case (PoolResume p)
  show ?thesis
  proof (cases "map_of (pools s) p")
    case None
    with assms show ?thesis by (simp add: PoolResume pool_resume_def)
  next
    case (Some pc)
    show ?thesis
    proof (cases pc)
      case (AwaitNative c)
      with Some assms show ?thesis by (simp add: PoolResume pool_resume_def)
    next
      case (AwaitReturn c r)
      from Some have "(p, pc) \<in> set (pools s)" by (rule map_of_SomeD)
      then have hc: "cid c \<in> set (held s)"
        unfolding held_def AwaitReturn by force
      with assms(2) have ne: "cid c \<noteq> x" by (auto simp add: absent_def)
      let ?s1 = "s\<lparr>settled := settled s @ [(cid c, r)]\<rparr>"
      let ?s2 = "?s1\<lparr>commands := cb_pop_front 1 (commands ?s1)\<rparr>"
      have e: "cmd_step e s = pool_loop (pool_fuel ?s2) p ?s2"
        using Some AwaitReturn by (simp add: PoolResume pool_resume_def Let_def)
      have o2: "cb_ok (commands ?s2)" using assms(1) by (simp add: cb_ok_pop_front)
      have q2: "set (queued ?s2) \<subseteq> set (queued s)"
        using queued_pop_front [OF assms(1)] by (simp add: queued_def)
      have a2: "absent_but p x ?s2"
        using assms(2) q2 by (auto simp add: absent_def absent_but_def held_def end_pool_def)
      have st: "is_settled x ?s2 \<longleftrightarrow> is_settled x s"
        using ne by (auto simp add: is_settled_def)
      have sn: "is_sent x ?s2 \<longleftrightarrow> is_sent x s" by (simp add: is_sent_def)
      from pool_loop_keeps [OF o2 pool_fuel_enough [OF o2], of p x] a2 assms(3) st sn
      show ?thesis unfolding e by (simp add: is_settled_def)
    qed
  qed
qed

lemma absent_run:
  assumes "cb_ok (commands s)" "absent x s" "x < next_cid s"
  shows "(is_settled x (cmd_run es s) \<longleftrightarrow> is_settled x s)
    \<and> (is_sent x (cmd_run es s) \<longleftrightarrow> is_sent x s)
    \<and> diverged (cmd_run es s) = diverged s"
  using assms unfolding cmd_run_def
proof (induction es arbitrary: s)
  case Nil
  show ?case by simp
next
  case (Cons e es)
  note st = absent_step [OF Cons.prems, of e]
  from Cons.IH [of "cmd_step e s"] st show ?case by simp
qed

lemma full_queue_loses_second:
  fixes r :: nat and res :: native_result
  assumes ok: "cb_ok (commands s)" and full: "bufferFull (commands s)"
    and flag: "sendCommandInProcess s" and pl: "pools s = [(p, AwaitNative c0)]"
    and ct: "cb_contents (commands s) = Some c0 # Some c1 # rest"
    and d: "distinct (queued s)" and lt: "\<forall>x\<in>set (queued s). x < next_cid s"
    and ns: "\<not> is_settled (cid c1) s" and nsent: "\<not> is_sent (cid c1) s"
  defines "s3 \<equiv> pool_resume p (native_reply p res (sendCommand r s))"
  shows "is_settled (cid c0) s3" "cb_ok (commands s3)" "absent (cid c1) s3"
    "cid c1 < next_cid s3" "\<not> is_settled (cid c1) s3" "\<not> is_sent (cid c1) s3"
proof -
  define new where "new = \<lparr>req = r, cid = next_cid s\<rparr>"
  define s1 where "s1 = sendCommand r s"
  define s2 where "s2 = native_reply p res s1"
  define t2 where
    "t2 = s2\<lparr>settled := settled s2 @ [(cid c0, sc_result_of res)],
             commands := cb_pop_front 1 (commands s2)\<rparr>"
  have s1: "s1 = s\<lparr>commands := cb_push_back new (commands s), next_cid := next_cid s + 1\<rparr>"
    using flag by (simp add: s1_def sendCommand_def runCommandPool_def Let_def new_def)
  have ok1: "cb_ok (commands s1)" using ok by (simp add: s1 cb_ok_push_back)
  have ct1: "cb_contents (commands s1) = Some c1 # rest @ [Some new]"
    using full by (simp add: s1 cb_contents_push_back [OF ok] ct)
  have s2: "commands s2 = commands s1" "pools s2 = [(p, AwaitReturn c0 (sc_result_of res))]"
    "settled s2 = settled s" "next_cid s2 = next_cid s + 1" "native_log s2 = native_log s"
    by (simp_all add: s2_def native_reply_def s1 pl set_pool_def sc_result_of_def)
  have s3: "s3 = pool_loop (pool_fuel t2) p t2"
    unfolding s3_def s1_def [symmetric] s2_def [symmetric]
    by (simp add: pool_resume_def s2 Let_def t2_def)
  have ok2: "cb_ok (commands t2)" using ok1 by (simp add: t2_def s2 cb_ok_pop_front)
  have ct2: "cb_contents (commands t2) = rest @ [Some new]"
    by (simp add: t2_def s2 cb_contents_pop_front [OF ok1] ct1)
  have q: "queued s = cid c0 # cid c1 # concat (map (\<lambda>x. case x of Some c \<Rightarrow> [cid c] | None \<Rightarrow> []) rest)"
    by (simp add: queued_def ct)
  have q2: "queued t2 = concat (map (\<lambda>x. case x of Some c \<Rightarrow> [cid c] | None \<Rightarrow> []) rest) @ [next_cid s]"
    by (simp add: queued_def ct2 new_def)
  have ne0: "cid c1 \<noteq> cid c0" and nr: "cid c1 \<notin> set (queued t2)"
    using d lt unfolding q q2 by auto
  have h2: "held (end_pool p t2) = []"
    by (simp add: held_def end_pool_def t2_def s2)
  have a2: "absent_but p (cid c1) t2"
    using nr by (simp add: absent_but_def h2)
  note k = pool_loop_keeps [OF ok2 pool_fuel_enough [OF ok2], of p "cid c1", folded s3]
  have st: "settled s3 = settled s @ [(cid c0, sc_result_of res)]"
    using k by (simp add: t2_def s2)
  show "is_settled (cid c0) s3" by (simp add: is_settled_def st)
  show "cb_ok (commands s3)" using k by simp
  show "absent (cid c1) s3" using k a2 by simp
  show "cid c1 < next_cid s3" using k lt by (simp add: t2_def s2 q)
  show "\<not> is_settled (cid c1) s3" using ns ne0 by (auto simp add: is_settled_def st)
  have "is_sent (cid c1) t2 \<longleftrightarrow> is_sent (cid c1) s" by (simp add: is_sent_def t2_def s2)
  with k a2 nsent show "\<not> is_sent (cid c1) s3" by simp
qed

lemma cb_apply_capacity: "cb_capacity (cb_apply op c) = cb_capacity c"
  by (cases op)
    (auto simp add: cb_capacity_def cb_clear_def cb_push_front_def cb_push_back_def cb_set_def
      cb_pop_front_def cb_pop_back_def cb_alloc_front_def cb_alloc_back_def Let_def
      split: sum.splits)

subsection \<open>The full queue\<close>

text \<open>
  C10, as stated, fails on the command queue. After 100 calls of \<open>sendCommand\<close> the queue is
  full and its front, the oldest request, is the one whose round trip is in progress. The
  101st call overwrites that slot, but \<open>runCommandPool\<close> still holds the request and settles
  it when the reply arrives. Its \<open>pop_front\<close> then removes the second request, which is
  neither sent nor settled and is no longer anywhere.
\<close>

theorem C10_full_queue_counterexample:
  "cb_isFull (commands (cmd_run (map SendCommand [0..<100]) cmd_init))
   \<and> map_option cid (cb_front (commands (cmd_run (map SendCommand [0..<100]) cmd_init))) = Some 0
   \<and> is_settled 0 (cmd_run overflow_trace cmd_init)
   \<and> \<not> is_settled 1 (cmd_run overflow_trace cmd_init)
   \<and> \<not> is_sent 1 (cmd_run overflow_trace cmd_init)
   \<and> 1 \<notin> set (queued (cmd_run overflow_trace cmd_init))
   \<and> 1 \<notin> set (held (cmd_run overflow_trace cmd_init))"
  by code_simp

text \<open>
  C10, amended. A buffer built with a length of at least 1 is well formed and every
  operation keeps it so, with its capacity unchanged and its size between 0 and the
  capacity. A push onto a full buffer succeeds and drops the element at the opposite end.
  On the command queue: let the queue be full while an invocation of \<open>runCommandPool\<close> awaits
  the native call for the front request, the queued requests being distinct and issued
  earlier. After one more \<open>sendCommand\<close>, the reply and the continuation of
  \<open>runCommandPool\<close>, the front request, which the push overwrote, has been settled, and the
  request that was second in the queue is, however the run goes on, never sent and never
  settled.
\<close>

theorem C10_full_queue:
  fixes c :: "'a CircularBuffer" and s :: cmd_state
  shows
  "(1 \<le> len \<longrightarrow> cb_ok (CircularBuffer_new len :: 'a CircularBuffer))
   \<and> (cb_ok c \<longrightarrow>
        cb_ok (cb_apply op c) \<and> cb_capacity (cb_apply op c) = cb_capacity c
        \<and> 0 \<le> cb_size (cb_apply op c) \<and> cb_size (cb_apply op c) \<le> cb_capacity (cb_apply op c))
   \<and> (cb_ok c \<and> cb_isFull c \<longrightarrow>
        cb_contents (cb_push_back v c) = tl (cb_contents c) @ [Some v]
        \<and> cb_contents (cb_push_front v c) = Some v # butlast (cb_contents c))
   \<and> (cb_ok (commands s) \<and> cb_isFull (commands s) \<and> sendCommandInProcess s
        \<and> pools s = [(p, AwaitNative oldest)]
        \<and> cb_contents (commands s) = Some oldest # Some second # rest
        \<and> distinct (queued s) \<and> (\<forall>x\<in>set (queued s). x < next_cid s)
        \<and> \<not> is_settled (cid second) s \<and> \<not> is_sent (cid second) s \<longrightarrow>
        is_settled (cid oldest) (pool_resume p (native_reply p res (sendCommand r s)))
        \<and> (\<forall>es. \<not> is_settled (cid second)
                    (cmd_run es (pool_resume p (native_reply p res (sendCommand r s))))
               \<and> \<not> is_sent (cid second)
                    (cmd_run es (pool_resume p (native_reply p res (sendCommand r s))))))"
proof -
  have 1: "cb_ok (CircularBuffer_new len :: 'a CircularBuffer)" if "1 \<le> len"
    using that by (rule cb_ok_new)
  have 2: "cb_ok (cb_apply op c) \<and> cb_capacity (cb_apply op c) = cb_capacity c
        \<and> 0 \<le> cb_size (cb_apply op c) \<and> cb_size (cb_apply op c) \<le> cb_capacity (cb_apply op c)"
    if "cb_ok c"
  proof -
    from that have o: "cb_ok (cb_apply op c)" by (rule cb_ok_apply)
    from o cb_size_bounds [OF o] cb_apply_capacity [of op c] show ?thesis by simp
  qed
  have 3: "cb_contents (cb_push_back v c) = tl (cb_contents c) @ [Some v]
        \<and> cb_contents (cb_push_front v c) = Some v # butlast (cb_contents c)"
    if "cb_ok c \<and> cb_isFull c"
    using that by (simp add: cb_isFull_def cb_contents_push_back cb_contents_push_front)
  have 4: "is_settled (cid oldest) (pool_resume p (native_reply p res (sendCommand r s)))
        \<and> (\<forall>es. \<not> is_settled (cid second)
                    (cmd_run es (pool_resume p (native_reply p res (sendCommand r s))))
               \<and> \<not> is_sent (cid second)
                    (cmd_run es (pool_resume p (native_reply p res (sendCommand r s)))))"
    if h: "cb_ok (commands s) \<and> cb_isFull (commands s) \<and> sendCommandInProcess s
        \<and> pools s = [(p, AwaitNative oldest)]
        \<and> cb_contents (commands s) = Some oldest # Some second # rest
        \<and> distinct (queued s) \<and> (\<forall>x\<in>set (queued s). x < next_cid s)
        \<and> \<not> is_settled (cid second) s \<and> \<not> is_sent (cid second) s"
  proof -
    from h have ok: "cb_ok (commands s)" and full: "bufferFull (commands s)"
      and flag: "sendCommandInProcess s" and pl: "pools s = [(p, AwaitNative oldest)]"
      and ct: "cb_contents (commands s) = Some oldest # Some second # rest"
      and d: "distinct (queued s)" and lt: "\<forall>x\<in>set (queued s). x < next_cid s"
      and ns: "\<not> is_settled (cid second) s" and nsent: "\<not> is_sent (cid second) s"
      by (simp_all add: cb_isFull_def)
    note f = full_queue_loses_second [OF ok full flag pl ct d lt ns nsent, of res r]
    note a = absent_run [OF f(2) f(3) f(4)]
    from f(1) f(5) f(6) a show ?thesis by simp
  qed
  from 1 2 3 4 show ?thesis by blast
qed

theorem C10_full_queue_witness:
  "cb_ok (cb_push_back 3 (cb_push_back 2 (CircularBuffer_new 2 :: nat CircularBuffer)))
   \<and> cb_isFull (cb_push_back 3 (cb_push_back 2 (CircularBuffer_new 2 :: nat CircularBuffer)))
   \<and> cb_size (cb_apply (Push_back 4)
        (cb_push_back 3 (cb_push_back 2 (CircularBuffer_new 2 :: nat CircularBuffer))))
       \<le> cb_capacity (cb_apply (Push_back 4)
            (cb_push_back 3 (cb_push_back 2 (CircularBuffer_new 2 :: nat CircularBuffer))))
   \<and> cb_contents (cb_push_back 5
        (cb_push_back 3 (cb_push_back 2 (CircularBuffer_new 2 :: nat CircularBuffer))))
       = tl (cb_contents
              (cb_push_back 3 (cb_push_back 2 (CircularBuffer_new 2 :: nat CircularBuffer))))
           @ [Some 5]
   \<and> cb_isFull (commands (cmd_run (map SendCommand [0..<100]) cmd_init))
   \<and> is_settled 0
        (pool_resume 0 (native_reply 0 (Reply_object 0)
          (sendCommand 100 (cmd_run (map SendCommand [0..<100]) cmd_init))))
   \<and> \<not> is_settled 1
        (cmd_run (concat (replicate 99 [NativeReply 0 (Reply_object 0), PoolResume 0]))
          (pool_resume 0 (native_reply 0 (Reply_object 0)
            (sendCommand 100 (cmd_run (map SendCommand [0..<100]) cmd_init)))))"
proof -
  let ?buf = "cb_push_back 3 (cb_push_back 2 (CircularBuffer_new 2 :: nat CircularBuffer))"
  let ?st = "cmd_run (map SendCommand [0..<100]) cmd_init"
  let ?first = "\<lparr>req = 0, cid = 0\<rparr>"
  let ?second = "\<lparr>req = 1, cid = 1\<rparr>"
  let ?rest = "map (\<lambda>i. Some \<lparr>req = i, cid = i\<rparr>) [2..<100]"
  let ?es = "concat (replicate 99 [NativeReply 0 (Reply_object 0), PoolResume 0])"
  note T = C10_full_queue [where len = 2 and c = ?buf and op = "Push_back 4" and v = 5
      and s = ?st and p = 0 and oldest = ?first and second = ?second and rest = ?rest
      and res = "Reply_object 0" and r = 100]
  have a: "cb_ok ?buf" by code_simp
  have b: "cb_isFull ?buf" by code_simp
  have f: "cb_isFull (commands ?st)" by code_simp
  have h: "cb_ok (commands ?st) \<and> cb_isFull (commands ?st) \<and> sendCommandInProcess ?st
        \<and> pools ?st = [(0, AwaitNative ?first)]
        \<and> cb_contents (commands ?st) = Some ?first # Some ?second # ?rest
        \<and> distinct (queued ?st) \<and> (\<forall>x\<in>set (queued ?st). x < next_cid ?st)
        \<and> \<not> is_settled (cid ?second) ?st \<and> \<not> is_sent (cid ?second) ?st"
    by code_simp
  have i: "cid ?first = 0" "cid ?second = 1" by simp_all
  from T [THEN conjunct2, THEN conjunct1, THEN mp, OF a]
  have 1: "cb_size (cb_apply (Push_back 4) ?buf) \<le> cb_capacity (cb_apply (Push_back 4) ?buf)"
    by (elim conjE)
  from T [THEN conjunct2, THEN conjunct2, THEN conjunct1, THEN mp, OF conjI [OF a b]]
  have 2: "cb_contents (cb_push_back 5 ?buf) = tl (cb_contents ?buf) @ [Some 5]"
    by (elim conjE)
  note 3 = T [THEN conjunct2, THEN conjunct2, THEN conjunct2, THEN mp, OF h, unfolded i]
  from 3 have 4: "is_settled 0
        (pool_resume 0 (native_reply 0 (Reply_object 0) (sendCommand 100 ?st)))"
    by (elim conjE)
  from 3 [THEN conjunct2, THEN spec, of ?es]
  have 5: "\<not> is_settled 1
        (cmd_run ?es (pool_resume 0 (native_reply 0 (Reply_object 0) (sendCommand 100 ?st))))"
    by (elim conjE)
  from a b 1 2 f 4 5 show ?thesis by (intro conjI)
qed

end
